theory Spec2Isabelle
  imports Complex_Main "HOL-Library.Multiset"
begin

section \<open>PolySort: the adaptive hybrid sort of polysort.c\<close>

text \<open>
  A shallow embedding of \<^verbatim>\<open>polysort.c\<close>. A C array is an \<open>int list\<close> holding the
  memory the pointer refers to; the length parameter \<open>n\<close> and every index are the C
  \<open>int\<close>s of the source, modelled as \<open>int\<close>. Every array access is checked: an index
  outside the list is undefined behaviour in C and the value \<open>Inl OutOfBounds\<close> here.
  Signed overflow and division by zero are undefined behaviour as well and are error
  values too, so a run of the model that ends in \<open>Inr\<close> is a run of the C program free
  of undefined behaviour.
\<close>

subsection \<open>Constants and strategy labels\<close>

definition INSERTION_SORT_THRESHOLD :: int where
  "INSERTION_SORT_THRESHOLD = 32"

definition ANALYSIS_SAMPLE_SIZE :: int where
  "ANALYSIS_SAMPLE_SIZE = 100"

definition NEARLY_SORTED_THRESHOLD :: rat where
  "NEARLY_SORTED_THRESHOLD = 85 / 100"

definition LOW_CARDINALITY_THRESHOLD :: rat where
  "LOW_CARDINALITY_THRESHOLD = 20 / 100"

definition INT_MAX :: int where
  "INT_MAX = 2147483647"

definition INT_MIN :: int where
  "INT_MIN = - 2147483648"

datatype SortStrategy = STRATEGY_MERGESORT | STRATEGY_RADIXSORT | STRATEGY_QUICKSORT

subsection \<open>Errors, checked memory access, C arithmetic\<close>

datatype error = OutOfBounds | SignedOverflow | DivisionByZero

type_synonym 'a result = "error + 'a"

fun rbind :: "'a result \<Rightarrow> ('a \<Rightarrow> 'b result) \<Rightarrow> 'b result" where
  "rbind (Inl e) f = Inl e"
| "rbind (Inr x) f = f x"

lemma rbind_cong [fundef_cong]:
  "m = m' \<Longrightarrow> (\<And>x. m' = Inr x \<Longrightarrow> f x = f' x) \<Longrightarrow> rbind m f = rbind m' f'"
  by (cases m') auto

definition rd :: "int list \<Rightarrow> int \<Rightarrow> int result" where
  "rd a i = (if 0 \<le> i \<and> i < int (length a) then Inr (a ! nat i) else Inl OutOfBounds)"

definition wr :: "int list \<Rightarrow> int \<Rightarrow> int \<Rightarrow> int list result" where
  "wr a i v = (if 0 \<le> i \<and> i < int (length a) then Inr (a[nat i := v]) else Inl OutOfBounds)"

text \<open>
  \<open>malloc(k * sizeof(int))\<close>. The allocator is not part of the program; it is modelled
  as succeeding for every non-negative element count (a negative count converts to a
  huge \<open>size_t\<close> and fails). The fresh block is filled with zeros; the program writes
  every cell of a block before it reads it. The source's branches for a failed
  allocation are kept in the functions below.
\<close>

definition malloc_ints :: "int \<Rightarrow> int list option" where
  "malloc_ints k = (if k < 0 then None else Some (replicate (nat k) 0))"

text \<open>\<open>memcpy(dst, src, k * sizeof(int))\<close>\<close>

definition memcpy_ints :: "int list \<Rightarrow> int list \<Rightarrow> int \<Rightarrow> int list result" where
  "memcpy_ints dst src k =
     (if 0 \<le> k \<and> k \<le> int (length src) \<and> k \<le> int (length dst)
      then Inr (take (nat k) src @ drop (nat k) dst) else Inl OutOfBounds)"

text \<open>C division and remainder truncate towards zero.\<close>

definition c_div :: "int \<Rightarrow> int \<Rightarrow> int result" where
  "c_div a b =
     (if b = 0 then Inl DivisionByZero
      else if a = INT_MIN \<and> b = - 1 then Inl SignedOverflow
      else Inr (sgn a * sgn b * (\<bar>a\<bar> div \<bar>b\<bar>)))"

definition c_mod :: "int \<Rightarrow> int \<Rightarrow> int result" where
  "c_mod a b = rbind (c_div a b) (\<lambda>q. Inr (a - q * b))"

definition c_mul :: "int \<Rightarrow> int \<Rightarrow> int result" where
  "c_mul a b = (if INT_MIN \<le> a * b \<and> a * b \<le> INT_MAX then Inr (a * b) else Inl SignedOverflow)"

definition c_sub :: "int \<Rightarrow> int \<Rightarrow> int result" where
  "c_sub a b = (if INT_MIN \<le> a - b \<and> a - b \<le> INT_MAX then Inr (a - b) else Inl SignedOverflow)"

text \<open>
  The two tests on \<open>double\<close> values divide one \<open>int\<close> by another and compare the
  quotient with a constant. The quotient of the IEEE 754 division is modelled by its
  exact rational value, with the special values of a zero divisor written out. For
  operands of magnitude at most 100, as here, rounding to binary64 is monotone and moves
  neither the quotient nor the constants \<open>0.85\<close> and \<open>0.20\<close> across each other: two
  distinct fractions with denominators up to 100 differ by far more than the rounding
  error, and equal ones round to the same \<open>double\<close>.
\<close>

datatype cdouble = Finite rat | PosInf | NegInf | NaN

definition double_div :: "int \<Rightarrow> int \<Rightarrow> cdouble" where
  "double_div a b =
     (if b = 0 then (if a = 0 then NaN else if 0 < a then PosInf else NegInf)
      else Finite (of_int a / of_int b))"

fun double_ge :: "cdouble \<Rightarrow> rat \<Rightarrow> bool" where
  "double_ge (Finite q) t = (t \<le> q)"
| "double_ge PosInf t = True"
| "double_ge NegInf t = False"
| "double_ge NaN t = False"

fun double_le :: "cdouble \<Rightarrow> rat \<Rightarrow> bool" where
  "double_le (Finite q) t = (q \<le> t)"
| "double_le PosInf t = False"
| "double_le NegInf t = True"
| "double_le NaN t = False"

subsection \<open>Insertion sort\<close>

text \<open>The inner \<open>while\<close> loop of \<open>insertionSort\<close> followed by \<open>arr[j + 1] = key\<close>.\<close>

function insertion_shift :: "int list \<Rightarrow> int \<Rightarrow> int \<Rightarrow> int \<Rightarrow> int list result" where
  "insertion_shift arr left key j =
     (if j \<ge> left then
        rbind (rd arr j) (\<lambda>v.
          if v > key then
            rbind (wr arr (j + 1) v) (\<lambda>arr'. insertion_shift arr' left key (j - 1))
          else wr arr (j + 1) key)
      else wr arr (j + 1) key)"
  by pat_completeness auto
termination
  by (relation "measure (\<lambda>(arr, left, key, j). nat (j - left + 1))") auto

declare insertion_shift.simps [simp del]

text \<open>The outer \<open>for\<close> loop of \<open>insertionSort\<close>, from index \<open>i\<close> on.\<close>

function insertion_loop :: "int list \<Rightarrow> int \<Rightarrow> int \<Rightarrow> int \<Rightarrow> int list result" where
  "insertion_loop arr left right i =
     (if i \<le> right then
        rbind (rd arr i) (\<lambda>key.
        rbind (insertion_shift arr left key (i - 1)) (\<lambda>arr'.
          insertion_loop arr' left right (i + 1)))
      else Inr arr)"
  by pat_completeness auto
termination
  by (relation "measure (\<lambda>(arr, left, right, i). nat (right + 1 - i))") auto

declare insertion_loop.simps [simp del]

definition insertionSort :: "int list \<Rightarrow> int \<Rightarrow> int \<Rightarrow> int list result" where
  "insertionSort arr left right = insertion_loop arr left right (left + 1)"

subsection \<open>Quicksort\<close>

definition swap :: "int list \<Rightarrow> int \<Rightarrow> int \<Rightarrow> int list result" where
  "swap arr a b =
     rbind (rd arr a) (\<lambda>t.
     rbind (rd arr b) (\<lambda>vb.
     rbind (wr arr a vb) (\<lambda>arr'.
       wr arr' b t)))"

text \<open>The \<open>for\<close> loop of \<open>partition\<close>; it returns the array and the final \<open>i\<close>.\<close>

function partition_loop ::
  "int list \<Rightarrow> int \<Rightarrow> int \<Rightarrow> int \<Rightarrow> int \<Rightarrow> (int list \<times> int) result" where
  "partition_loop arr high pivot i j =
     (if j \<le> high - 1 then
        rbind (rd arr j) (\<lambda>v.
          if v < pivot then
            rbind (swap arr (i + 1) j) (\<lambda>arr'. partition_loop arr' high pivot (i + 1) (j + 1))
          else partition_loop arr high pivot i (j + 1))
      else Inr (arr, i))"
  by pat_completeness auto
termination
  by (relation "measure (\<lambda>(arr, high, pivot, i, j). nat (high - j))") auto

declare partition_loop.simps [simp del]

definition partition :: "int list \<Rightarrow> int \<Rightarrow> int \<Rightarrow> (int list \<times> int) result" where
  "partition arr low high =
     rbind (rd arr high) (\<lambda>pivot.
     rbind (partition_loop arr high pivot (low - 1) low) (\<lambda>(arr', i).
     rbind (swap arr' (i + 1) high) (\<lambda>arr''.
       Inr (arr'', i + 1))))"

lemma rbind_eq_Inr: "rbind m f = Inr y \<longleftrightarrow> (\<exists>x. m = Inr x \<and> f x = Inr y)"
  by (cases m) auto

lemma partition_loop_index:
  "partition_loop arr high pivot i j = Inr (arr', i') \<Longrightarrow> i \<le> i' \<and> i' \<le> i + max 0 (high - j)"
proof (induction arr high pivot i j rule: partition_loop.induct)
  case (1 arr high pivot i j)
  note unfold = partition_loop.simps [of arr high pivot i j]
  show ?case
  proof (cases "j \<le> high - 1")
    case False
    with "1.prems" unfold show ?thesis by simp
  next
    case True
    with "1.prems" unfold obtain v where v: "rd arr j = Inr v"
      by (auto simp: rbind_eq_Inr)
    show ?thesis
    proof (cases "v < pivot")
      case less: True
      with "1.prems" unfold True v obtain a where a: "swap arr (i + 1) j = Inr a"
        and r: "partition_loop a high pivot (i + 1) (j + 1) = Inr (arr', i')"
        by (auto simp: rbind_eq_Inr)
      from "1.IH"(1) [OF True v less a r] True show ?thesis by simp
    next
      case geq: False
      with "1.prems" unfold True v have r: "partition_loop arr high pivot i (j + 1) = Inr (arr', i')"
        by (auto simp: rbind_eq_Inr)
      from "1.IH"(2) [OF True v geq r] True show ?thesis by simp
    qed
  qed
qed

lemma partition_index:
  assumes "partition arr low high = Inr (arr', pidx)" and "low < high"
  shows "low \<le> pidx \<and> pidx \<le> high"
proof -
  from assms(1) obtain pivot a i where "partition_loop arr high pivot (low - 1) low = Inr (a, i)"
    and "pidx = i + 1"
    by (auto simp: partition_def rbind_eq_Inr)
  with partition_loop_index [of arr high pivot "low - 1" low a i] assms(2) show ?thesis
    by simp
qed

function quickSortRecursive :: "int list \<Rightarrow> int \<Rightarrow> int \<Rightarrow> int list result" where
  "quickSortRecursive arr low high =
     (if low < high then
        (if high - low + 1 < INSERTION_SORT_THRESHOLD then insertionSort arr low high
         else
           rbind (partition arr low high) (\<lambda>(arr', pidx).
           rbind (quickSortRecursive arr' low (pidx - 1)) (\<lambda>arr''.
             quickSortRecursive arr'' (pidx + 1) high)))
      else Inr arr)"
  by pat_completeness auto
termination
proof (relation "measure (\<lambda>(arr, low, high). nat (high - low))", goal_cases)
  case 1
  show ?case by simp
next
  case (2 arr low high x arr' pidx)
  with partition_index [of arr low high arr' pidx] show ?case by simp
next
  case (3 arr low high x arr' pidx arr'')
  with partition_index [of arr low high arr' pidx] show ?case by simp
qed

declare quickSortRecursive.simps [simp del]

definition quickSort :: "int list \<Rightarrow> int \<Rightarrow> int \<Rightarrow> int list result" where
  "quickSort arr low high = quickSortRecursive arr low high"

subsection \<open>Merge sort\<close>

text \<open>\<open>for (i = 0; i < cnt; i++) dst[i] = src[off + i];\<close> from index \<open>i\<close> on.\<close>

function copy_in :: "int list \<Rightarrow> int list \<Rightarrow> int \<Rightarrow> int \<Rightarrow> int \<Rightarrow> int list result" where
  "copy_in dst src off cnt i =
     (if i < cnt then
        rbind (rd src (off + i)) (\<lambda>v.
        rbind (wr dst i v) (\<lambda>dst'.
          copy_in dst' src off cnt (i + 1)))
      else Inr dst)"
  by pat_completeness auto
termination
  by (relation "measure (\<lambda>(dst, src, off, cnt, i). nat (cnt - i))") auto

declare copy_in.simps [simp del]

text \<open>The main \<open>while (i < n1 && j < n2)\<close> loop of \<open>merge\<close>.\<close>

function merge_main ::
  "int list \<Rightarrow> int list \<Rightarrow> int list \<Rightarrow> int \<Rightarrow> int \<Rightarrow> int \<Rightarrow> int \<Rightarrow> int \<Rightarrow>
     (int list \<times> int \<times> int \<times> int) result" where
  "merge_main arr L R n1 n2 i j k =
     (if i < n1 \<and> j < n2 then
        rbind (rd L i) (\<lambda>a.
        rbind (rd R j) (\<lambda>b.
          if a \<le> b then
            rbind (wr arr k a) (\<lambda>arr'. merge_main arr' L R n1 n2 (i + 1) j (k + 1))
          else
            rbind (wr arr k b) (\<lambda>arr'. merge_main arr' L R n1 n2 i (j + 1) (k + 1))))
      else Inr (arr, i, j, k))"
  by pat_completeness auto
termination
  by (relation "measure (\<lambda>(arr, L, R, n1, n2, i, j, k). nat (n1 - i) + nat (n2 - j))") auto

declare merge_main.simps [simp del]

text \<open>\<open>while (i < cnt) arr[k++] = buf[i++];\<close>, used for both remainders.\<close>

function merge_rest ::
  "int list \<Rightarrow> int list \<Rightarrow> int \<Rightarrow> int \<Rightarrow> int \<Rightarrow> (int list \<times> int) result" where
  "merge_rest arr buf cnt i k =
     (if i < cnt then
        rbind (rd buf i) (\<lambda>v.
        rbind (wr arr k v) (\<lambda>arr'.
          merge_rest arr' buf cnt (i + 1) (k + 1)))
      else Inr (arr, k))"
  by pat_completeness auto
termination
  by (relation "measure (\<lambda>(arr, buf, cnt, i, k). nat (cnt - i))") auto

declare merge_rest.simps [simp del]

definition merge :: "int list \<Rightarrow> int \<Rightarrow> int \<Rightarrow> int \<Rightarrow> int list result" where
  "merge arr l m r =
     (let n1 = m - l + 1; n2 = r - m in
      case (malloc_ints n1, malloc_ints n2) of
        (Some L0, Some R0) \<Rightarrow>
          rbind (copy_in L0 arr l n1 0) (\<lambda>L.
          rbind (copy_in R0 arr (m + 1) n2 0) (\<lambda>R.
          rbind (merge_main arr L R n1 n2 0 0 l) (\<lambda>(arr1, i, j, k).
          rbind (merge_rest arr1 L n1 i k) (\<lambda>(arr2, k2).
          rbind (merge_rest arr2 R n2 j k2) (\<lambda>(arr3, k3).
            Inr arr3)))))
      | _ \<Rightarrow> Inr arr)"

function mergeSort :: "int list \<Rightarrow> int \<Rightarrow> int \<Rightarrow> int list result" where
  "mergeSort arr l r =
     (if l < r then
        (let m = l + (r - l) div 2 in
         rbind (mergeSort arr l m) (\<lambda>arr1.
         rbind (mergeSort arr1 (m + 1) r) (\<lambda>arr2.
           merge arr2 l m r)))
      else Inr arr)"
  by pat_completeness auto
termination
  by (relation "measure (\<lambda>(arr, l, r). nat (r - l))") auto

declare mergeSort.simps [simp del]

subsection \<open>Radix sort\<close>

function getMax_loop :: "int list \<Rightarrow> int \<Rightarrow> int \<Rightarrow> int \<Rightarrow> int result" where
  "getMax_loop arr n i mx =
     (if i < n then
        rbind (rd arr i) (\<lambda>v. getMax_loop arr n (i + 1) (if v > mx then v else mx))
      else Inr mx)"
  by pat_completeness auto
termination
  by (relation "measure (\<lambda>(arr, n, i, mx). nat (n - i))") auto

declare getMax_loop.simps [simp del]

definition getMax :: "int list \<Rightarrow> int \<Rightarrow> int result" where
  "getMax arr n = rbind (rd arr 0) (\<lambda>mx. getMax_loop arr n 1 mx)"

text \<open>The index expression \<open>(arr[i] / exp) % 10\<close>.\<close>

definition digit_at :: "int list \<Rightarrow> int \<Rightarrow> int \<Rightarrow> int result" where
  "digit_at arr i expn =
     rbind (rd arr i) (\<lambda>v.
     rbind (c_div v expn) (\<lambda>q.
       c_mod q 10))"

text \<open>\<open>for (i = 0; i < n; i++) count[(arr[i] / exp) % 10]++;\<close>\<close>

function count_digits :: "int list \<Rightarrow> int \<Rightarrow> int \<Rightarrow> int \<Rightarrow> int list \<Rightarrow> int list result" where
  "count_digits arr n expn i cnts =
     (if i < n then
        rbind (digit_at arr i expn) (\<lambda>d.
        rbind (rd cnts d) (\<lambda>c.
        rbind (wr cnts d (c + 1)) (\<lambda>cnts'.
          count_digits arr n expn (i + 1) cnts')))
      else Inr cnts)"
  by pat_completeness auto
termination
  by (relation "measure (\<lambda>(arr, n, expn, i, cnts). nat (n - i))") auto

declare count_digits.simps [simp del]

text \<open>\<open>for (i = 1; i < 10; i++) count[i] += count[i - 1];\<close>\<close>

function count_prefix :: "int \<Rightarrow> int list \<Rightarrow> int list result" where
  "count_prefix i cnts =
     (if i < 10 then
        rbind (rd cnts i) (\<lambda>c.
        rbind (rd cnts (i - 1)) (\<lambda>p.
        rbind (wr cnts i (c + p)) (\<lambda>cnts'.
          count_prefix (i + 1) cnts')))
      else Inr cnts)"
  by pat_completeness auto
termination
  by (relation "measure (\<lambda>(i, cnts). nat (10 - i))") auto

declare count_prefix.simps [simp del]

text \<open>The backward loop that places every element; it returns \<open>output\<close> and \<open>count\<close>.\<close>

function place_loop ::
  "int list \<Rightarrow> int \<Rightarrow> int \<Rightarrow> int list \<Rightarrow> int list \<Rightarrow> (int list \<times> int list) result" where
  "place_loop arr expn i output cnts =
     (if i \<ge> 0 then
        rbind (digit_at arr i expn) (\<lambda>d.
        rbind (rd cnts d) (\<lambda>c.
        rbind (rd arr i) (\<lambda>v.
        rbind (wr output (c - 1) v) (\<lambda>output'.
        rbind (wr cnts d (c - 1)) (\<lambda>cnts'.
          place_loop arr expn (i - 1) output' cnts')))))
      else Inr (output, cnts))"
  by pat_completeness auto
termination
  by (relation "measure (\<lambda>(arr, expn, i, output, cnts). nat (i + 1))") auto

declare place_loop.simps [simp del]

text \<open>\<open>for (i = 0; i < n; i++) arr[i] = output[i];\<close>\<close>

function copy_back :: "int list \<Rightarrow> int list \<Rightarrow> int \<Rightarrow> int \<Rightarrow> int list result" where
  "copy_back arr output n i =
     (if i < n then
        rbind (rd output i) (\<lambda>v.
        rbind (wr arr i v) (\<lambda>arr'.
          copy_back arr' output n (i + 1)))
      else Inr arr)"
  by pat_completeness auto
termination
  by (relation "measure (\<lambda>(arr, output, n, i). nat (n - i))") auto

declare copy_back.simps [simp del]

definition countingSortForRadix :: "int list \<Rightarrow> int \<Rightarrow> int \<Rightarrow> int list result" where
  "countingSortForRadix arr n expn =
     (case malloc_ints n of
        None \<Rightarrow> Inr arr
      | Some output \<Rightarrow>
          rbind (count_digits arr n expn 0 (replicate 10 0)) (\<lambda>count1.
          rbind (count_prefix 1 count1) (\<lambda>count2.
          rbind (place_loop arr expn (n - 1) output count2) (\<lambda>(output', count3).
            copy_back arr output' n 0))))"

text \<open>
  The loop of \<open>radixSort\<close>, entered with the current \<open>exp\<close>. Besides the array it
  returns the list of the \<open>exp\<close> values of the passes it performed, in order: a trace
  that the program does not compute, recorded to count the passes.
\<close>

function radix_loop ::
  "int list \<Rightarrow> int \<Rightarrow> int \<Rightarrow> int \<Rightarrow> (int list \<times> int list) result" where
  "radix_loop arr n m expn =
     rbind (c_div m expn) (\<lambda>q.
       if q > 0 then
         rbind (countingSortForRadix arr n expn) (\<lambda>arr'.
         rbind (c_mul expn 10) (\<lambda>expn'.
         rbind (radix_loop arr' n m expn') (\<lambda>(arr'', passes).
           Inr (arr'', expn # passes))))
       else Inr (arr, []))"
  by pat_completeness auto
termination
proof (relation "measure (\<lambda>(arr, n, m, expn). nat (INT_MAX + 1 - \<bar>expn\<bar>))", goal_cases)
  case 1
  show ?case by simp
next
  case (2 arr n m expn q arr' expn')
  then have "expn \<noteq> 0" and "expn' = expn * 10" and "INT_MIN \<le> expn'" and "expn' \<le> INT_MAX"
    by (auto simp: c_div_def c_mul_def split: if_splits)
  then show ?case by (simp add: INT_MAX_def INT_MIN_def abs_mult)
qed

declare radix_loop.simps [simp del]

definition radixSort_traced :: "int list \<Rightarrow> int \<Rightarrow> (int list \<times> int list) result" where
  "radixSort_traced arr n = rbind (getMax arr n) (\<lambda>m. radix_loop arr n m 1)"

definition radixSort :: "int list \<Rightarrow> int \<Rightarrow> int list result" where
  "radixSort arr n = rbind (radixSort_traced arr n) (\<lambda>(arr', passes). Inr arr')"

subsection \<open>Heuristic analysis engine\<close>

text \<open>
  The C library's \<open>qsort(base, nmemb, size, compar)\<close> is not part of the program: the
  analysis takes it as a parameter. \<open>compareInts\<close> is the comparator the program hands
  to it; its subtraction overflows for operands far apart.
\<close>

type_synonym qsort_fn = "int list \<Rightarrow> int \<Rightarrow> (int \<Rightarrow> int \<Rightarrow> int result) \<Rightarrow> int list result"

definition compareInts :: "int \<Rightarrow> int \<Rightarrow> int result" where
  "compareInts a b = c_sub a b"

text \<open>The first loop of \<open>analyzeData\<close>; it returns \<open>has_negative\<close> and \<open>ascending_pairs\<close>.\<close>

function analyze_scan :: "int list \<Rightarrow> int \<Rightarrow> int \<Rightarrow> bool \<Rightarrow> int \<Rightarrow> (bool \<times> int) result" where
  "analyze_scan arr sample_size i has_negative ascending_pairs =
     (if i < sample_size - 1 then
        rbind (rd arr i) (\<lambda>a.
        rbind (rd arr (i + 1)) (\<lambda>b.
          analyze_scan arr sample_size (i + 1)
            (if a < 0 then True else has_negative)
            (if a \<le> b then ascending_pairs + 1 else ascending_pairs)))
      else Inr (has_negative, ascending_pairs))"
  by pat_completeness auto
termination
  by (relation "measure (\<lambda>(arr, sample_size, i, has_negative, ascending_pairs).
        nat (sample_size - i))") auto

declare analyze_scan.simps [simp del]

text \<open>The loop that counts the distinct values of the sorted copy.\<close>

function count_unique :: "int list \<Rightarrow> int \<Rightarrow> int \<Rightarrow> int \<Rightarrow> int result" where
  "count_unique sample_copy sample_size i unique_count =
     (if i < sample_size then
        rbind (rd sample_copy i) (\<lambda>a.
        rbind (rd sample_copy (i - 1)) (\<lambda>b.
          count_unique sample_copy sample_size (i + 1)
            (if a \<noteq> b then unique_count + 1 else unique_count)))
      else Inr unique_count)"
  by pat_completeness auto
termination
  by (relation "measure (\<lambda>(sample_copy, sample_size, i, unique_count).
        nat (sample_size - i))") auto

declare count_unique.simps [simp del]

definition analyzeData :: "qsort_fn \<Rightarrow> int list \<Rightarrow> int \<Rightarrow> SortStrategy result" where
  "analyzeData qsort arr n =
     (let sample_size = (if n < ANALYSIS_SAMPLE_SIZE then n else ANALYSIS_SAMPLE_SIZE) in
      rbind (analyze_scan arr sample_size 0 False 0) (\<lambda>(has_negative, ascending_pairs).
        if double_ge (double_div ascending_pairs (sample_size - 1)) NEARLY_SORTED_THRESHOLD
        then Inr STRATEGY_MERGESORT
        else if \<not> has_negative then Inr STRATEGY_RADIXSORT
        else
          (case malloc_ints sample_size of
             None \<Rightarrow> Inr STRATEGY_QUICKSORT
           | Some fresh \<Rightarrow>
               rbind (memcpy_ints fresh arr sample_size) (\<lambda>sample_copy.
               rbind (qsort sample_copy sample_size compareInts) (\<lambda>sample_sorted.
               rbind (count_unique sample_sorted sample_size 1 1) (\<lambda>unique_count.
                 if double_le (double_div unique_count sample_size) LOW_CARDINALITY_THRESHOLD
                 then Inr STRATEGY_QUICKSORT
                 else Inr STRATEGY_QUICKSORT))))))"

subsection \<open>The dispatcher\<close>

definition adaptiveHybridSort :: "qsort_fn \<Rightarrow> int list \<Rightarrow> int \<Rightarrow> int list result" where
  "adaptiveHybridSort qsort arr n =
     (if n \<le> 1 then Inr arr
      else if n < INSERTION_SORT_THRESHOLD then insertionSort arr 0 (n - 1)
      else
        rbind (analyzeData qsort arr n) (\<lambda>strategy.
          case strategy of
            STRATEGY_MERGESORT \<Rightarrow> mergeSort arr 0 (n - 1)
          | STRATEGY_RADIXSORT \<Rightarrow> radixSort arr n
          | STRATEGY_QUICKSORT \<Rightarrow> quickSort arr 0 (n - 1)))"

subsection \<open>A stand-in for the library sort\<close>

text \<open>
  To run the analysis on concrete arrays some \<open>qsort\<close> has to be supplied. This one
  sorts the first \<open>nmemb\<close> cells by insertion, asking the comparator as the library
  would. The general theorems below hold for every \<open>qsort\<close>.
\<close>

fun insert_by :: "(int \<Rightarrow> int \<Rightarrow> int result) \<Rightarrow> int \<Rightarrow> int list \<Rightarrow> int list result" where
  "insert_by compar x [] = Inr [x]"
| "insert_by compar x (y # ys) =
     rbind (compar x y) (\<lambda>c.
       if c \<le> 0 then Inr (x # y # ys)
       else rbind (insert_by compar x ys) (\<lambda>zs. Inr (y # zs)))"

fun sort_by :: "(int \<Rightarrow> int \<Rightarrow> int result) \<Rightarrow> int list \<Rightarrow> int list result" where
  "sort_by compar [] = Inr []"
| "sort_by compar (x # xs) = rbind (sort_by compar xs) (insert_by compar x)"

definition libc_qsort :: qsort_fn where
  "libc_qsort base nmemb compar =
     (if 0 \<le> nmemb \<and> nmemb \<le> int (length base)
      then rbind (sort_by compar (take (nat nmemb) base)) (\<lambda>s. Inr (s @ drop (nat nmemb) base))
      else Inl OutOfBounds)"

subsection \<open>The dispatcher as the specification words it\<close>

text \<open>
  Section 4.3 of the specification: no-op for \<open>n \<le> 1\<close>; the insertion backend over
  the full range, with no analysis, for \<open>1 < n < 32\<close>; otherwise the strategy of the
  analysis engine selects the merge, radix or quicksort backend over the full range.
\<close>

definition backend_of :: "SortStrategy \<Rightarrow> int list \<Rightarrow> int \<Rightarrow> int list result" where
  "backend_of strategy S n =
     (case strategy of
        STRATEGY_MERGESORT \<Rightarrow> mergeSort S 0 (n - 1)
      | STRATEGY_RADIXSORT \<Rightarrow> radixSort S n
      | STRATEGY_QUICKSORT \<Rightarrow> quickSort S 0 (n - 1))"

definition dispatcher_spec :: "qsort_fn \<Rightarrow> int list \<Rightarrow> int \<Rightarrow> int list result" where
  "dispatcher_spec qsort S n =
     (if n \<le> 1 then Inr S
      else if 1 < n \<and> n < 32 then insertionSort S 0 (n - 1)
      else rbind (analyzeData qsort S n) (\<lambda>strategy. backend_of strategy S n))"

subsection \<open>The sample as the specification words it\<close>

text \<open>
  The sample is the first \<open>min(n, ANALYSIS_SAMPLE_SIZE)\<close> elements; its ascending
  pairs are the positions \<open>i\<close> with \<open>sample[i] \<le> sample[i + 1]\<close>.
\<close>

definition sample_of :: "int list \<Rightarrow> int \<Rightarrow> int list" where
  "sample_of arr n = take (nat (min n ANALYSIS_SAMPLE_SIZE)) arr"

definition ascending_pairs_of :: "int list \<Rightarrow> nat" where
  "ascending_pairs_of sample =
     length (filter (\<lambda>i. sample ! i \<le> sample ! (i + 1)) [0 ..< length sample - 1])"

subsection \<open>The frame of a range\<close>

text \<open>
  \<open>unchanged_outside arr arr' left right\<close>: the array has kept its length and every
  cell at an index outside \<open>[left, right]\<close> its value.
\<close>

definition unchanged_outside :: "int list \<Rightarrow> int list \<Rightarrow> int \<Rightarrow> int \<Rightarrow> bool" where
  "unchanged_outside arr arr' left right \<longleftrightarrow>
     length arr' = length arr \<and>
     (\<forall>k < length arr. int k < left \<or> right < int k \<longrightarrow> arr' ! k = arr ! k)"

text \<open>
  An array of 34 cells: a permutation of \<open>0, \<dots>, 31\<close> in the cells 1 to 32, between
  two cells that lie outside that range.
\<close>

definition fenced_permutation :: "int list" where
  "fenced_permutation =
     [100, 17, 3, 25, 8, 30, 12, 1, 22, 5, 28, 14, 9, 31, 2, 19, 7, 26, 11, 4, 23, 16,
      0, 29, 13, 6, 21, 10, 27, 15, 20, 18, 24, - 100]"

subsection \<open>Decimal digits and the state of the placing loop\<close>

text \<open>The decimal digit of \<open>x\<close> at the position of weight \<open>expn\<close>.\<close>

definition digit_key :: "int \<Rightarrow> int \<Rightarrow> int" where
  "digit_key expn x = (x div expn) mod 10"

text \<open>
  The state of the placing loop of \<open>countingSortForRadix\<close> before it handles index
  \<open>i\<close>, over the range \<open>xs\<close>: for every digit \<open>d\<close>, \<open>count[d]\<close> is the number of
  elements with a digit up to \<open>d\<close> less the number of elements with digit \<open>d\<close>
  already placed, and the placed ones stand in \<open>output\<close> from \<open>count[d]\<close> on, in the
  order they have in \<open>xs\<close>.
\<close>

definition place_inv :: "int \<Rightarrow> int list \<Rightarrow> int \<Rightarrow> int list \<Rightarrow> int list \<Rightarrow> bool" where
  "place_inv expn xs i output cnts \<longleftrightarrow>
     length output = length xs \<and> length cnts = 10 \<and>
     (\<forall>d < 10.
        cnts ! d = int (length (filter (\<lambda>x. digit_key expn x \<le> int d) xs))
                 - int (length (filter (\<lambda>x. digit_key expn x = int d) (drop (nat (i + 1)) xs)))
        \<and> (\<forall>t < length (filter (\<lambda>x. digit_key expn x = int d) (drop (nat (i + 1)) xs)).
              output ! (nat (cnts ! d) + t) =
              filter (\<lambda>x. digit_key expn x = int d) (drop (nat (i + 1)) xs) ! t))"

subsection \<open>The radix backend as the specification words it\<close>

text \<open>The number of decimal digits of a non-negative integer; \<open>0\<close> has one digit.\<close>

function decimal_digits :: "int \<Rightarrow> nat" where
  "decimal_digits m = (if m < 10 then 1 else Suc (decimal_digits (m div 10)))"
  by pat_completeness auto
termination
  by (relation "measure nat") auto

declare decimal_digits.simps [simp del]

text \<open>
  A sequence of stable sorts, one for each \<open>exp\<close> of the list \<open>passes\<close>, each keyed
  on the decimal digit of that weight.
\<close>

definition stable_passes :: "int list \<Rightarrow> int list \<Rightarrow> int list" where
  "stable_passes xs passes = foldl (\<lambda>ys e. sort_key (digit_key e) ys) xs passes"

text \<open>
  \<open>lex_key f g\<close> orders by \<open>f\<close> first and by \<open>g\<close> among equal \<open>f\<close>. A stable sort
  by \<open>f\<close> of a list sorted by \<open>g\<close> is sorted by it.
\<close>

definition lex_key :: "('a \<Rightarrow> int) \<Rightarrow> ('a \<Rightarrow> int) \<Rightarrow> 'a \<Rightarrow> 'a \<Rightarrow> bool" where
  "lex_key f g a b \<longleftrightarrow> f a < f b \<or> (f a = f b \<and> g a \<le> g b)"

subsection \<open>Functional counterparts of the comparison backends\<close>

text \<open>The cells \<open>left, \<dots>, right\<close> of an array.\<close>

definition slice :: "int list \<Rightarrow> int \<Rightarrow> int \<Rightarrow> int list" where
  "slice arr left right = take (nat (right - left + 1)) (drop (nat left) arr)"

text \<open>
  What the inner loop of \<open>insertionSort\<close> makes of the cells before the key: the
  elements greater than the key at the right end move one cell up and the key goes
  below them.
\<close>

definition ins_right :: "int \<Rightarrow> int list \<Rightarrow> int list" where
  "ins_right key A =
     rev (dropWhile (\<lambda>v. key < v) (rev A)) @ key # rev (takeWhile (\<lambda>v. key < v) (rev A))"

definition fold_ins :: "int list \<Rightarrow> int list \<Rightarrow> int list" where
  "fold_ins A U = foldl (\<lambda>A u. ins_right u A) A U"

text \<open>Merging as the three loops of \<open>merge\<close> do it, and the merge sort built on it.\<close>

fun fmerge :: "int list \<Rightarrow> int list \<Rightarrow> int list" where
  "fmerge [] bs = bs"
| "fmerge (a # as) [] = a # as"
| "fmerge (a # as) (b # bs) =
     (if a \<le> b then a # fmerge as (b # bs) else b # fmerge (a # as) bs)"

function fmsort :: "int list \<Rightarrow> int list" where
  "fmsort xs =
     (if length xs \<le> 1 then xs
      else fmerge (fmsort (take ((length xs - 1) div 2 + 1) xs))
                  (fmsort (drop ((length xs - 1) div 2 + 1) xs)))"
  by pat_completeness auto
termination
  by (relation "measure length") auto

declare fmsort.simps [simp del]

text \<open>The three loops of \<open>merge\<close> after the two copies.\<close>

definition merge_loops ::
  "int list \<Rightarrow> int list \<Rightarrow> int list \<Rightarrow> int \<Rightarrow> int \<Rightarrow> int \<Rightarrow> int \<Rightarrow> int \<Rightarrow> int list result" where
  "merge_loops arr L R n1 n2 i j k =
     rbind (merge_main arr L R n1 n2 i j k) (\<lambda>(arr1, i, j, k).
     rbind (merge_rest arr1 L n1 i k) (\<lambda>(arr2, k2).
     rbind (merge_rest arr2 R n2 j k2) (\<lambda>(arr3, k3).
       Inr arr3)))"

text \<open>
  The arrangement the loop of \<open>partition\<close> produces: \<open>S\<close> are the cells found
  smaller than the pivot, \<open>G\<close> the others seen so far, and a swap moves the first
  cell of \<open>G\<close> behind its last one.
\<close>

definition rot :: "int list \<Rightarrow> int list" where
  "rot G = (case G of [] \<Rightarrow> [] | g # gs \<Rightarrow> gs @ [g])"

fun flomuto :: "int \<Rightarrow> int list \<Rightarrow> int list \<Rightarrow> int list \<Rightarrow> int list \<times> int list" where
  "flomuto pivot S G [] = (S, G)"
| "flomuto pivot S G (u # U) =
     (if u < pivot then flomuto pivot (S @ [u]) (rot G) U else flomuto pivot S (G @ [u]) U)"

subsection \<open>A 32-element input that reaches the radix backend with a negative value\<close>

text \<open>
  Thirty-one values between 0 and 9, mostly descending, followed by \<open>-10\<close>. The array
  has exactly \<open>INSERTION_SORT_THRESHOLD\<close> elements, so the dispatcher analyses it.
\<close>

definition descending_digits_then_negative :: "int list" where
  "descending_digits_then_negative =
     [9, 8, 7, 6, 5, 4, 3, 2, 1, 0, 9, 8, 7, 6, 5, 4, 3, 2, 1, 0,
      9, 8, 7, 6, 5, 4, 3, 2, 1, 0, 5, - 10]"

section \<open>Running the model\<close>

text \<open>
  Concrete runs are computed by the simplifier from the defining equations. The weak
  congruence rule makes it evaluate the first argument of \<open>rbind\<close> before it looks at
  the continuation, as the program does.
\<close>

lemma rbind_weak_cong: "m = m' \<Longrightarrow> rbind m f = rbind m' f"
  by simp

lemmas run_simps =
  insertion_shift.simps insertion_loop.simps insertionSort_def rd_def wr_def swap_def
  partition_loop.simps partition_def quickSortRecursive.simps quickSort_def
  INSERTION_SORT_THRESHOLD_def adaptiveHybridSort_def analyzeData_def analyze_scan.simps
  count_unique.simps memcpy_ints_def compareInts_def c_sub_def
  ANALYSIS_SAMPLE_SIZE_def NEARLY_SORTED_THRESHOLD_def LOW_CARDINALITY_THRESHOLD_def
  double_div_def radixSort_def radixSort_traced_def getMax_def getMax_loop.simps
  radix_loop.simps c_div_def c_mod_def c_mul_def INT_MIN_def INT_MAX_def
  countingSortForRadix_def malloc_ints_def count_digits.simps count_prefix.simps
  place_loop.simps copy_back.simps digit_at_def mergeSort.simps merge_def copy_in.simps
  merge_main.simps merge_rest.simps libc_qsort_def Let_def

section \<open>The analysis engine on small samples\<close>

text \<open>
  Claim C9. A call with \<open>n = 1\<close> has a sample of one element. The scan loop does not
  run, the ratio \<open>0.0 / 0\<close> is a NaN, and a NaN compares false with the threshold: the
  call does not fail, does not answer \<open>STRATEGY_MERGESORT\<close>, and goes on to the sign
  heuristic, which answers \<open>STRATEGY_RADIXSORT\<close> because no element was inspected. This
  holds for every array, the empty one included, and every library sort.
\<close>

theorem analyzeData_single_element_sample:
  "double_div 0 (1 - 1) = NaN
   \<and> \<not> double_ge (double_div 0 (1 - 1)) NEARLY_SORTED_THRESHOLD
   \<and> analyze_scan arr 1 0 False 0 = Inr (False, 0)
   \<and> analyzeData qsort arr 1 = Inr STRATEGY_RADIXSORT"
  by (simp add: analyzeData_def analyze_scan.simps [of arr 1 0] double_div_def
      ANALYSIS_SAMPLE_SIZE_def)

text \<open>
  Claim C3. The scan tests \<open>arr[i] < 0\<close> only for \<open>i < sample_size - 1\<close>, so the last
  element of the sample is never tested for its sign. On the three-element array
  \<open>[3, 2, -1]\<close> the whole array is the sample, it contains \<open>-1\<close>, and the answer is
  \<open>STRATEGY_RADIXSORT\<close> all the same.
\<close>

theorem analyzeData_misses_last_sample_element:
  "analyzeData libc_qsort [3, 2, - 1] 3 = Inr STRATEGY_RADIXSORT
   \<and> (\<exists>x \<in> set (take (nat (min 3 ANALYSIS_SAMPLE_SIZE)) [3, 2, - 1 :: int]). x < 0)"
  by (simp add: run_simps cong: rbind_weak_cong)

subsection \<open>The scan loop in closed form\<close>

lemma rd_take: "0 \<le> i \<Longrightarrow> i < k \<Longrightarrow> rd (take (nat k) arr) i = rd arr i"
  by (auto simp: rd_def)

lemma analyze_scan_take:
  "0 \<le> i \<Longrightarrow> analyze_scan (take (nat s) arr) s i hn ap = analyze_scan arr s i hn ap"
proof (induction arr s i hn ap rule: analyze_scan.induct)
  case (1 arr s i hn ap)
  show ?case
  proof (cases "i < s - 1")
    case False
    then show ?thesis
      by (simp add: analyze_scan.simps [of _ s i])
  next
    case True
    with "1.prems" have r: "rd (take (nat s) arr) i = rd arr i"
      "rd (take (nat s) arr) (i + 1) = rd arr (i + 1)"
      by (simp_all add: rd_take)
    show ?thesis
    proof (cases "rd arr i")
      case (Inl e)
      with True r show ?thesis by (simp add: analyze_scan.simps [of _ s i])
    next
      case a: (Inr a)
      show ?thesis
      proof (cases "rd arr (i + 1)")
        case (Inl e)
        with True r a show ?thesis by (simp add: analyze_scan.simps [of _ s i])
      next
        case b: (Inr b)
        from "1.prems" have "0 \<le> i + 1" by simp
        from "1.IH" [OF True a b this] True r a b show ?thesis
          by (simp add: analyze_scan.simps [of _ s i])
      qed
    qed
  qed
qed

lemma analyze_scan_result:
  "0 \<le> i \<Longrightarrow> s \<le> int (length arr) \<Longrightarrow>
   analyze_scan arr s i hn ap =
     Inr (hn \<or> (\<exists>k. i \<le> k \<and> k < s - 1 \<and> arr ! nat k < 0),
          ap + int (length (filter (\<lambda>k. arr ! k \<le> arr ! (k + 1)) [nat i ..< nat (s - 1)])))"
proof (induction arr s i hn ap rule: analyze_scan.induct)
  case (1 arr s i hn ap)
  show ?case
  proof (cases "i < s - 1")
    case False
    then show ?thesis
      by (auto simp: analyze_scan.simps [of _ s i])
  next
    case True
    with "1.prems" have a: "rd arr i = Inr (arr ! nat i)"
      and b: "rd arr (i + 1) = Inr (arr ! nat (i + 1))"
      by (simp_all add: rd_def)
    from "1.prems" have i1: "0 \<le> i + 1" by simp
    have upt: "[nat i ..< nat (s - 1)] = nat i # [nat (i + 1) ..< nat (s - 1)]"
      using True "1.prems" by (simp add: upt_conv_Cons nat_add_distrib)
    have ex: "(\<exists>k. i \<le> k \<and> k < s - 1 \<and> arr ! nat k < 0) \<longleftrightarrow>
        arr ! nat i < 0 \<or> (\<exists>k. i + 1 \<le> k \<and> k < s - 1 \<and> arr ! nat k < 0)"
    proof -
      have "i \<le> k \<longleftrightarrow> k = i \<or> i + 1 \<le> k" for k by auto
      with True show ?thesis by auto
    qed
    have suc: "nat (i + 1) = nat i + 1"
      using "1.prems" by (simp add: nat_add_distrib)
    show ?thesis
      unfolding analyze_scan.simps [of arr s i] upt ex
      using True a b "1.IH" [OF True a b i1 "1.prems"(2)]
      by (simp add: suc)
  qed
qed


lemma memcpy_ints_take: "memcpy_ints dst (take (nat k) src) k = memcpy_ints dst src k"
  by (auto simp: memcpy_ints_def)

lemma analyzeData_on_sample:
  "analyzeData qsort arr n =
     analyzeData qsort (sample_of arr n) (min n ANALYSIS_SAMPLE_SIZE)"
proof -
  define s where "s = (if n < ANALYSIS_SAMPLE_SIZE then n else ANALYSIS_SAMPLE_SIZE)"
  have s: "min n ANALYSIS_SAMPLE_SIZE = s"
    by (simp add: s_def min_def)
  have s': "(if s < ANALYSIS_SAMPLE_SIZE then s else ANALYSIS_SAMPLE_SIZE) = s"
    by (simp add: s_def)
  show ?thesis
    unfolding analyzeData_def sample_of_def s s' s_def [symmetric] Let_def
    by (simp add: analyze_scan_take memcpy_ints_take cong: if_cong option.case_cong)
qed

lemma ascending_pairs_of_take:
  assumes "2 \<le> s" and "s \<le> int (length arr)"
  shows "int (ascending_pairs_of (take (nat s) arr)) =
    int (length (filter (\<lambda>k. arr ! k \<le> arr ! (k + 1)) [nat 0 ..< nat (s - 1)]))"
proof -
  from assms have "min (length arr) (nat s) = nat s"
    by linarith
  with assms have len: "length (take (nat s) arr) - 1 = nat (s - 1)"
    by (simp add: nat_diff_distrib)
  have "filter (\<lambda>i. take (nat s) arr ! i \<le> take (nat s) arr ! (i + 1)) [0 ..< nat (s - 1)] =
      filter (\<lambda>k. arr ! k \<le> arr ! (k + 1)) [0 ..< nat (s - 1)]"
    by (rule filter_cong) auto
  then show ?thesis
    unfolding ascending_pairs_of_def len by simp
qed

text \<open>
  Claim C5. When the sample has at least two elements (and lies inside the array) and
  the number of its ascending pairs divided by \<open>sample_len - 1\<close> is at least 0.85,
  the answer is \<open>STRATEGY_MERGESORT\<close>. Nothing is assumed about signs or distinct
  values, nor about the library sort: the sortedness heuristic is decided first.
\<close>

theorem analyzeData_nearly_sorted:
  assumes "2 \<le> length (sample_of arr n)"
    and "min n ANALYSIS_SAMPLE_SIZE \<le> int (length arr)"
    and "NEARLY_SORTED_THRESHOLD \<le>
      of_nat (ascending_pairs_of (sample_of arr n)) / of_nat (length (sample_of arr n) - 1)"
  shows "analyzeData qsort arr n = Inr STRATEGY_MERGESORT"
proof -
  define s where "s = (if n < ANALYSIS_SAMPLE_SIZE then n else ANALYSIS_SAMPLE_SIZE)"
  have smin: "min n ANALYSIS_SAMPLE_SIZE = s"
    by (simp add: s_def min_def)
  from assms(2) have bound: "s \<le> int (length arr)"
    by (simp add: smin)
  from assms(1) bound have s2: "2 \<le> s"
    by (simp add: sample_of_def smin)
  from s2 bound have "min (length arr) (nat s) = nat s"
    by linarith
  with s2 have len: "length (sample_of arr n) - 1 = nat (s - 1)"
    by (simp add: sample_of_def smin nat_diff_distrib)
  define ap where "ap = int (ascending_pairs_of (sample_of arr n))"
  have scan: "analyze_scan arr s 0 False 0 =
      Inr (\<exists>k. 0 \<le> k \<and> k < s - 1 \<and> arr ! nat k < 0, ap)"
    using analyze_scan_result [of 0 s arr False 0] bound
      ascending_pairs_of_take [OF s2 bound]
    by (simp add: ap_def sample_of_def smin)
  have "(of_int (s - 1) :: rat) = of_nat (length (sample_of arr n) - 1)"
    unfolding len using s2 by simp
  moreover have "(of_int ap :: rat) = of_nat (ascending_pairs_of (sample_of arr n))"
    by (simp add: ap_def)
  ultimately have "double_ge (double_div ap (s - 1)) NEARLY_SORTED_THRESHOLD"
    using assms(3) s2 by (simp add: double_div_def)
  with scan show ?thesis
    unfolding analyzeData_def s_def [symmetric] Let_def by simp
qed

theorem analyzeData_nearly_sorted_witness:
  "2 \<le> length (sample_of [- 7, 1, 1, 4] 4)
   \<and> min 4 ANALYSIS_SAMPLE_SIZE \<le> int (length [- 7, 1, 1, 4 :: int])
   \<and> NEARLY_SORTED_THRESHOLD \<le>
      of_nat (ascending_pairs_of (sample_of [- 7, 1, 1, 4] 4))
        / of_nat (length (sample_of [- 7, 1, 1, 4] 4) - 1)
   \<and> analyzeData libc_qsort [- 7, 1, 1, 4] 4 = Inr STRATEGY_MERGESORT"
proof -
  have h1: "2 \<le> length (sample_of [- 7, 1, 1, 4] 4)"
    by (simp add: sample_of_def ANALYSIS_SAMPLE_SIZE_def)
  have h2: "min 4 ANALYSIS_SAMPLE_SIZE \<le> int (length [- 7, 1, 1, 4 :: int])"
    by (simp add: ANALYSIS_SAMPLE_SIZE_def)
  have h3: "NEARLY_SORTED_THRESHOLD \<le>
      of_nat (ascending_pairs_of (sample_of [- 7, 1, 1, 4] 4))
        / of_nat (length (sample_of [- 7, 1, 1, 4] 4) - 1)"
    by (simp add: sample_of_def ANALYSIS_SAMPLE_SIZE_def ascending_pairs_of_def
        NEARLY_SORTED_THRESHOLD_def upt_rec)
  from h1 h2 h3 analyzeData_nearly_sorted [OF h1 h2 h3, of libc_qsort] show ?thesis
    by simp
qed

text \<open>
  Claim C8. The answer of the analysis is a function of the sample alone: two calls
  whose samples have the same size and the same contents give the same result, whatever
  the lengths of the arrays they come from. The model has no state besides its
  arguments, so no earlier call can influence it.
\<close>

theorem analyzeData_deterministic:
  assumes "min n1 ANALYSIS_SAMPLE_SIZE = min n2 ANALYSIS_SAMPLE_SIZE"
    and "sample_of arr1 n1 = sample_of arr2 n2"
  shows "analyzeData qsort arr1 n1 = analyzeData qsort arr2 n2"
  using assms analyzeData_on_sample [of qsort arr1 n1] analyzeData_on_sample [of qsort arr2 n2]
  by simp

theorem analyzeData_deterministic_witness:
  "min 100 ANALYSIS_SAMPLE_SIZE = min 250 ANALYSIS_SAMPLE_SIZE
   \<and> sample_of (replicate 50 3 @ replicate 50 (- 2)) 100 =
       sample_of (replicate 50 3 @ replicate 50 (- 2) @ replicate 150 8) 250
   \<and> analyzeData libc_qsort (replicate 50 3 @ replicate 50 (- 2)) 100 =
       analyzeData libc_qsort (replicate 50 3 @ replicate 50 (- 2) @ replicate 150 8) 250"
proof -
  have h1: "min 100 ANALYSIS_SAMPLE_SIZE = min 250 ANALYSIS_SAMPLE_SIZE"
    by (simp add: ANALYSIS_SAMPLE_SIZE_def)
  have h2: "sample_of (replicate 50 3 @ replicate 50 (- 2)) 100 =
       sample_of (replicate 50 3 @ replicate 50 (- 2) @ replicate 150 8) 250"
    by (simp add: sample_of_def ANALYSIS_SAMPLE_SIZE_def)
  from h1 h2 analyzeData_deterministic [OF h1 h2, of libc_qsort] show ?thesis
    by simp
qed

text \<open>
  What the sign heuristic does establish: when the answer is \<open>STRATEGY_RADIXSORT\<close>,
  every sample element except the last is non-negative.
\<close>

lemma analyzeData_radix_prefix_nonnegative:
  assumes "analyzeData qsort arr n = Inr STRATEGY_RADIXSORT"
    and "min n ANALYSIS_SAMPLE_SIZE \<le> int (length arr)"
    and "0 \<le> k" and "k < min n ANALYSIS_SAMPLE_SIZE - 1"
  shows "0 \<le> arr ! nat k"
proof -
  define s where "s = (if n < ANALYSIS_SAMPLE_SIZE then n else ANALYSIS_SAMPLE_SIZE)"
  have smin: "min n ANALYSIS_SAMPLE_SIZE = s"
    by (simp add: s_def min_def)
  from assms(2) have bound: "s \<le> int (length arr)"
    by (simp add: smin)
  note scan = analyze_scan_result [of 0 s arr False 0, OF _ bound, simplified]
  from assms(1) have "\<not> (\<exists>k. 0 \<le> k \<and> k < s - 1 \<and> arr ! nat k < 0)"
    unfolding analyzeData_def s_def [symmetric] Let_def scan
    by (auto split: if_splits option.splits simp: rbind_eq_Inr)
  with assms(3,4) show ?thesis
    by (auto simp: smin)
qed

section \<open>The backends write inside their range only\<close>

lemma unchanged_outside_refl: "unchanged_outside arr arr left right"
  by (simp add: unchanged_outside_def)

lemma unchanged_outside_trans:
  "unchanged_outside a b left right \<Longrightarrow> unchanged_outside b c left right \<Longrightarrow>
   unchanged_outside a c left right"
  by (simp add: unchanged_outside_def)

lemma unchanged_outside_widen:
  "unchanged_outside a b l' r' \<Longrightarrow> l \<le> l' \<Longrightarrow> r' \<le> r \<Longrightarrow> unchanged_outside a b l r"
  by (auto simp: unchanged_outside_def)

lemma wr_frame:
  "wr arr i v = Inr arr' \<Longrightarrow> l \<le> i \<Longrightarrow> i \<le> r \<Longrightarrow> unchanged_outside arr arr' l r"
  by (auto simp: wr_def unchanged_outside_def split: if_splits)

lemma swap_frame:
  assumes "swap arr a b = Inr arr'" and "l \<le> a" and "a \<le> r" and "l \<le> b" and "b \<le> r"
  shows "unchanged_outside arr arr' l r"
proof -
  from assms(1) obtain t vb mid where "wr arr a vb = Inr mid" and "wr mid b t = Inr arr'"
    by (auto simp: swap_def rbind_eq_Inr)
  with assms(2-) show ?thesis
    by (blast intro: unchanged_outside_trans wr_frame)
qed

lemma insertion_shift_frame:
  "insertion_shift arr left key j = Inr arr' \<Longrightarrow> left - 1 \<le> j \<Longrightarrow>
   unchanged_outside arr arr' left (j + 1)"
proof (induction arr left key j arbitrary: arr' rule: insertion_shift.induct)
  case (1 arr left key j)
  note unfold = insertion_shift.simps [of arr left key j]
  show ?case
  proof (cases "j \<ge> left")
    case False
    with "1.prems" unfold have "wr arr (j + 1) key = Inr arr'" by simp
    with "1.prems"(2) show ?thesis by (auto intro: wr_frame)
  next
    case True
    with "1.prems" unfold obtain v where v: "rd arr j = Inr v"
      by (auto simp: rbind_eq_Inr)
    show ?thesis
    proof (cases "v > key")
      case False
      with "1.prems" unfold True v have "wr arr (j + 1) key = Inr arr'" by simp
      with True show ?thesis by (auto intro: wr_frame)
    next
      case gt: True
      with "1.prems" unfold True v obtain mid where w: "wr arr (j + 1) v = Inr mid"
        and rest: "insertion_shift mid left key (j - 1) = Inr arr'"
        by (auto simp: rbind_eq_Inr)
      from True have "left - 1 \<le> j - 1" by simp
      from "1.IH" [OF True v gt w rest this]
      have "unchanged_outside mid arr' left (j + 1)"
        by (rule unchanged_outside_widen) simp_all
      moreover from w True have "unchanged_outside arr mid left (j + 1)"
        by (auto intro: wr_frame)
      ultimately show ?thesis by (blast intro: unchanged_outside_trans)
    qed
  qed
qed

lemma insertion_loop_frame:
  "insertion_loop arr left right i = Inr arr' \<Longrightarrow> left < i \<Longrightarrow>
   unchanged_outside arr arr' left right"
proof (induction arr left right i arbitrary: arr' rule: insertion_loop.induct)
  case (1 arr left right i)
  note unfold = insertion_loop.simps [of arr left right i]
  show ?case
  proof (cases "i \<le> right")
    case False
    with "1.prems" unfold show ?thesis by (simp add: unchanged_outside_refl)
  next
    case True
    with "1.prems" unfold obtain key mid where key: "rd arr i = Inr key"
      and shift: "insertion_shift arr left key (i - 1) = Inr mid"
      and rest: "insertion_loop mid left right (i + 1) = Inr arr'"
      by (auto simp: rbind_eq_Inr)
    from "1.prems"(2) have "left < i + 1" by simp
    from "1.IH" [OF True key shift rest this]
    have "unchanged_outside mid arr' left right" .
    moreover from insertion_shift_frame [OF shift] "1.prems"(2) True
    have "unchanged_outside arr mid left right"
      by (auto intro: unchanged_outside_widen)
    ultimately show ?thesis by (blast intro: unchanged_outside_trans)
  qed
qed

lemma insertionSort_frame:
  "insertionSort arr left right = Inr arr' \<Longrightarrow> unchanged_outside arr arr' left right"
  by (simp add: insertionSort_def insertion_loop_frame)

lemma partition_loop_frame:
  "partition_loop arr high pivot i j = Inr (arr', i') \<Longrightarrow> low - 1 \<le> i \<Longrightarrow> i < j \<Longrightarrow>
   unchanged_outside arr arr' low (high - 1)"
proof (induction arr high pivot i j arbitrary: arr' i' rule: partition_loop.induct)
  case (1 arr high pivot i j)
  note unfold = partition_loop.simps [of arr high pivot i j]
  show ?case
  proof (cases "j \<le> high - 1")
    case False
    with "1.prems" unfold show ?thesis by (simp add: unchanged_outside_refl)
  next
    case True
    with "1.prems" unfold obtain v where v: "rd arr j = Inr v"
      by (auto simp: rbind_eq_Inr)
    show ?thesis
    proof (cases "v < pivot")
      case less: True
      with "1.prems" unfold True v obtain mid where sw: "swap arr (i + 1) j = Inr mid"
        and rest: "partition_loop mid high pivot (i + 1) (j + 1) = Inr (arr', i')"
        by (auto simp: rbind_eq_Inr)
      from "1.prems" have "low - 1 \<le> i + 1" "i + 1 < j + 1" by simp_all
      from "1.IH"(1) [OF True v less sw rest this]
      have "unchanged_outside mid arr' low (high - 1)" .
      moreover have "unchanged_outside arr mid low (high - 1)"
        using swap_frame [OF sw, of low "high - 1"] "1.prems"(2,3) True by simp
      ultimately show ?thesis by (blast intro: unchanged_outside_trans)
    next
      case geq: False
      with "1.prems" unfold True v
      have rest: "partition_loop arr high pivot i (j + 1) = Inr (arr', i')"
        by (auto simp: rbind_eq_Inr)
      from "1.prems" have "low - 1 \<le> i" "i < j + 1" by simp_all
      from "1.IH"(2) [OF True v geq rest this] show ?thesis .
    qed
  qed
qed

lemma partition_frame:
  assumes "partition arr low high = Inr (arr', p)" and "low \<le> high"
  shows "unchanged_outside arr arr' low high"
proof -
  from assms(1) obtain pivot mid i where loop: "partition_loop arr high pivot (low - 1) low = Inr (mid, i)"
    and sw: "swap mid (i + 1) high = Inr arr'"
    by (auto simp: partition_def rbind_eq_Inr)
  from partition_loop_index [OF loop] assms(2) have i: "low - 1 \<le> i" "i \<le> high - 1"
    by simp_all
  from partition_loop_frame [OF loop, of low] have "unchanged_outside arr mid low high"
    by (auto intro: unchanged_outside_widen)
  moreover have "unchanged_outside mid arr' low high"
    using swap_frame [OF sw, of low high] i assms(2) by simp
  ultimately show ?thesis by (blast intro: unchanged_outside_trans)
qed

lemma quickSortRecursive_frame:
  "quickSortRecursive arr low high = Inr arr' \<Longrightarrow> unchanged_outside arr arr' low high"
proof (induction arr low high arbitrary: arr' rule: quickSortRecursive.induct)
  case (1 arr low high)
  note unfold = quickSortRecursive.simps [of arr low high]
  show ?case
  proof (cases "low < high")
    case False
    with "1.prems" unfold show ?thesis by (simp add: unchanged_outside_refl)
  next
    case True
    show ?thesis
    proof (cases "high - low + 1 < INSERTION_SORT_THRESHOLD")
      case small: True
      with "1.prems" unfold True show ?thesis by (simp add: insertionSort_frame)
    next
      case big: False
      with "1.prems" unfold True obtain a1 p a2 where part: "partition arr low high = Inr (a1, p)"
        and left: "quickSortRecursive a1 low (p - 1) = Inr a2"
        and right: "quickSortRecursive a2 (p + 1) high = Inr arr'"
        by (auto simp: rbind_eq_Inr)
      from partition_index [OF part True] have p: "low \<le> p" "p \<le> high" by simp_all
      from partition_frame [OF part] True have "unchanged_outside arr a1 low high" by simp
      moreover from "1.IH"(1) [OF True big _ _ left, of "(a1, p)"] part p
      have "unchanged_outside a1 a2 low high"
        by (auto intro: unchanged_outside_widen)
      moreover from "1.IH"(2) [OF True big _ _ left right, of "(a1, p)"] part p
      have "unchanged_outside a2 arr' low high"
        by (auto intro: unchanged_outside_widen)
      ultimately show ?thesis by (blast intro: unchanged_outside_trans)
    qed
  qed
qed


lemma merge_main_frame:
  "merge_main arr L R n1 n2 i j k = Inr (arr', i', j', k') \<Longrightarrow>
   unchanged_outside arr arr' k (k' - 1) \<and> k' - k = (i' - i) + (j' - j)
   \<and> i \<le> i' \<and> j \<le> j' \<and> i' \<le> max i n1 \<and> j' \<le> max j n2"
proof (induction arr L R n1 n2 i j k arbitrary: arr' i' j' k' rule: merge_main.induct)
  case (1 arr L R n1 n2 i j k)
  note unfold = merge_main.simps [of arr L R n1 n2 i j k]
  show ?case
  proof (cases "i < n1 \<and> j < n2")
    case False
    with "1.prems" unfold have "arr' = arr" "i' = i" "j' = j" "k' = k"
      by (simp_all del: de_Morgan_conj)
    then show ?thesis by (simp add: unchanged_outside_refl)
  next
    case True
    with "1.prems" unfold obtain a b where a: "rd L i = Inr a" and b: "rd R j = Inr b"
      by (auto simp: rbind_eq_Inr)
    show ?thesis
    proof (cases "a \<le> b")
      case le: True
      with "1.prems" unfold True a b obtain mid where w: "wr arr k a = Inr mid"
        and rest: "merge_main mid L R n1 n2 (i + 1) j (k + 1) = Inr (arr', i', j', k')"
        by (auto simp: rbind_eq_Inr)
      note ih = "1.IH"(1) [OF True a b le w rest]
      from ih True have "unchanged_outside mid arr' k (k' - 1)"
        by (auto intro: unchanged_outside_widen)
      moreover from w ih have "unchanged_outside arr mid k (k' - 1)"
        by (intro wr_frame) auto
      ultimately have "unchanged_outside arr arr' k (k' - 1)"
        by (blast intro: unchanged_outside_trans)
      with ih True show ?thesis by auto
    next
      case gt: False
      with "1.prems" unfold True a b obtain mid where w: "wr arr k b = Inr mid"
        and rest: "merge_main mid L R n1 n2 i (j + 1) (k + 1) = Inr (arr', i', j', k')"
        by (auto simp: rbind_eq_Inr)
      note ih = "1.IH"(2) [OF True a b gt w rest]
      from ih True have "unchanged_outside mid arr' k (k' - 1)"
        by (auto intro: unchanged_outside_widen)
      moreover from w ih have "unchanged_outside arr mid k (k' - 1)"
        by (intro wr_frame) auto
      ultimately have "unchanged_outside arr arr' k (k' - 1)"
        by (blast intro: unchanged_outside_trans)
      with ih True show ?thesis by auto
    qed
  qed
qed

lemma merge_rest_frame:
  "merge_rest arr buf cnt i k = Inr (arr', k') \<Longrightarrow>
   unchanged_outside arr arr' k (k' - 1) \<and> k' = k + max 0 (cnt - i)"
proof (induction arr buf cnt i k arbitrary: arr' k' rule: merge_rest.induct)
  case (1 arr buf cnt i k)
  note unfold = merge_rest.simps [of arr buf cnt i k]
  show ?case
  proof (cases "i < cnt")
    case False
    with "1.prems" unfold show ?thesis by (simp add: unchanged_outside_refl)
  next
    case True
    with "1.prems" unfold obtain v mid where v: "rd buf i = Inr v"
      and w: "wr arr k v = Inr mid"
      and rest: "merge_rest mid buf cnt (i + 1) (k + 1) = Inr (arr', k')"
      by (auto simp: rbind_eq_Inr)
    note ih = "1.IH" [OF True v w rest]
    from ih True have "unchanged_outside mid arr' k (k' - 1)"
      by (auto intro: unchanged_outside_widen)
    moreover from w ih True have "unchanged_outside arr mid k (k' - 1)"
      by (intro wr_frame) auto
    ultimately have "unchanged_outside arr arr' k (k' - 1)"
      by (blast intro: unchanged_outside_trans)
    with ih True show ?thesis by auto
  qed
qed

lemma merge_frame:
  assumes "merge arr l m r = Inr arr'"
  shows "unchanged_outside arr arr' l r"
proof (cases "m - l + 1 < 0 \<or> r - m < 0")
  case True
  with assms have "arr' = arr"
    by (auto simp: merge_def malloc_ints_def Let_def split: if_splits)
  then show ?thesis by (simp add: unchanged_outside_refl)
next
  case False
  define n1 where "n1 = m - l + 1"
  define n2 where "n2 = r - m"
  from False have n: "0 \<le> n1" "0 \<le> n2" by (simp_all add: n1_def n2_def)
  from assms False obtain L R a1 i j k a2 k2 k3
    where main: "merge_main arr L R n1 n2 0 0 l = Inr (a1, i, j, k)"
      and restL: "merge_rest a1 L n1 i k = Inr (a2, k2)"
      and restR: "merge_rest a2 R n2 j k2 = Inr (arr', k3)"
    by (auto simp: merge_def malloc_ints_def Let_def n1_def n2_def rbind_eq_Inr
        split: if_splits)
  note m1 = merge_main_frame [OF main]
  note m2 = merge_rest_frame [OF restL]
  note m3 = merge_rest_frame [OF restR]
  from m1 m2 m3 n have k3: "k3 = r + 1" and k: "l \<le> k" "k \<le> k2" "k2 \<le> k3"
    by (auto simp: n1_def n2_def)
  from m1 k k3 have "unchanged_outside arr a1 l r"
    by (auto intro: unchanged_outside_widen)
  moreover from m2 k k3 have "unchanged_outside a1 a2 l r"
    by (auto intro: unchanged_outside_widen)
  moreover from m3 k k3 have "unchanged_outside a2 arr' l r"
    by (auto intro: unchanged_outside_widen)
  ultimately show ?thesis by (blast intro: unchanged_outside_trans)
qed

lemma mergeSort_frame:
  "mergeSort arr l r = Inr arr' \<Longrightarrow> unchanged_outside arr arr' l r"
proof (induction arr l r arbitrary: arr' rule: mergeSort.induct)
  case (1 arr l r)
  note unfold = mergeSort.simps [of arr l r]
  show ?case
  proof (cases "l < r")
    case False
    with "1.prems" unfold show ?thesis by (simp add: unchanged_outside_refl)
  next
    case True
    define m where "m = l + (r - l) div 2"
    from True have m: "l \<le> m" "m < r" by (simp_all add: m_def)
    from "1.prems" unfold True obtain a1 a2 where left: "mergeSort arr l m = Inr a1"
      and right: "mergeSort a1 (m + 1) r = Inr a2"
      and mrg: "merge a2 l m r = Inr arr'"
      by (auto simp: rbind_eq_Inr Let_def m_def)
    from "1.IH"(1) [OF True m_def left] m have "unchanged_outside arr a1 l r"
      by (auto intro: unchanged_outside_widen)
    moreover from "1.IH"(2) [OF True m_def left right] m have "unchanged_outside a1 a2 l r"
      by (auto intro: unchanged_outside_widen)
    moreover from merge_frame [OF mrg] have "unchanged_outside a2 arr' l r" .
    ultimately show ?thesis by (blast intro: unchanged_outside_trans)
  qed
qed

subsection \<open>Calls on a range inside the array return\<close>

lemma unchanged_outside_length: "unchanged_outside arr arr' l r \<Longrightarrow> length arr' = length arr"
  by (simp add: unchanged_outside_def)

lemma insertion_shift_returns:
  "0 \<le> left \<Longrightarrow> left - 1 \<le> j \<Longrightarrow> j + 1 < int (length arr) \<Longrightarrow>
   \<exists>arr'. insertion_shift arr left key j = Inr arr'"
proof (induction arr left key j rule: insertion_shift.induct)
  case (1 arr left key j)
  note unfold = insertion_shift.simps [of arr left key j]
  from "1.prems" have w: "\<exists>a. wr arr (j + 1) v = Inr a" for v
    by (simp add: wr_def)
  show ?case
  proof (cases "j \<ge> left")
    case False
    with unfold w show ?thesis by simp
  next
    case True
    with "1.prems" have r: "rd arr j = Inr (arr ! nat j)" by (simp add: rd_def)
    show ?thesis
    proof (cases "arr ! nat j > key")
      case False
      with True r unfold w show ?thesis by simp
    next
      case gt: True
      from w obtain mid where mid: "wr arr (j + 1) (arr ! nat j) = Inr mid" by blast
      then have "length mid = length arr" by (auto simp: wr_def split: if_splits)
      with "1.prems" True have "0 \<le> left" "left - 1 \<le> j - 1" "j - 1 + 1 < int (length mid)"
        by simp_all
      from "1.IH" [OF True r gt mid this] True r gt mid unfold show ?thesis by simp
    qed
  qed
qed

lemma insertion_loop_returns:
  "0 \<le> left \<Longrightarrow> left < i \<Longrightarrow> right < int (length arr) \<Longrightarrow>
   \<exists>arr'. insertion_loop arr left right i = Inr arr'"
proof (induction arr left right i rule: insertion_loop.induct)
  case (1 arr left right i)
  note unfold = insertion_loop.simps [of arr left right i]
  show ?case
  proof (cases "i \<le> right")
    case False
    with unfold show ?thesis by simp
  next
    case True
    with "1.prems" have r: "rd arr i = Inr (arr ! nat i)" by (simp add: rd_def)
    from insertion_shift_returns [of left "i - 1" arr "arr ! nat i"] "1.prems" True
    obtain mid where mid: "insertion_shift arr left (arr ! nat i) (i - 1) = Inr mid" by auto
    from insertion_shift_frame [OF mid] "1.prems" have "length mid = length arr"
      by (simp add: unchanged_outside_length)
    with "1.prems" have "0 \<le> left" "left < i + 1" "right < int (length mid)" by simp_all
    from "1.IH" [OF True r mid this] True r mid unfold show ?thesis by simp
  qed
qed

lemma insertionSort_returns:
  "0 \<le> left \<Longrightarrow> right < int (length arr) \<Longrightarrow> \<exists>arr'. insertionSort arr left right = Inr arr'"
  by (simp add: insertionSort_def insertion_loop_returns)

lemma swap_returns:
  assumes "0 \<le> a" and "a < int (length arr)" and "0 \<le> b" and "b < int (length arr)"
  shows "\<exists>arr'. swap arr a b = Inr arr'"
  using assms by (simp add: swap_def rd_def wr_def)

lemma partition_loop_returns:
  "- 1 \<le> i \<Longrightarrow> i < j \<Longrightarrow> high - 1 < int (length arr) \<Longrightarrow>
   \<exists>res. partition_loop arr high pivot i j = Inr res"
proof (induction arr high pivot i j rule: partition_loop.induct)
  case (1 arr high pivot i j)
  note unfold = partition_loop.simps [of arr high pivot i j]
  show ?case
  proof (cases "j \<le> high - 1")
    case False
    with unfold show ?thesis by simp
  next
    case True
    with "1.prems" have r: "rd arr j = Inr (arr ! nat j)" by (simp add: rd_def)
    show ?thesis
    proof (cases "arr ! nat j < pivot")
      case less: True
      from swap_returns [of "i + 1" arr j] "1.prems" True
      obtain mid where mid: "swap arr (i + 1) j = Inr mid" by auto
      from swap_frame [OF mid, of 0 "int (length arr)"] "1.prems" True
      have "length mid = length arr" by (simp add: unchanged_outside_length)
      with "1.prems" have "- 1 \<le> i + 1" "i + 1 < j + 1" "high - 1 < int (length mid)" by simp_all
      from "1.IH"(1) [OF True r less mid this] True r less mid unfold show ?thesis by simp
    next
      case geq: False
      from "1.prems" have "- 1 \<le> i" "i < j + 1" "high - 1 < int (length arr)" by simp_all
      from "1.IH"(2) [OF True r geq this] True r geq unfold show ?thesis by simp
    qed
  qed
qed

lemma partition_returns:
  assumes "0 \<le> low" and "low \<le> high" and "high < int (length arr)"
  shows "\<exists>res. partition arr low high = Inr res"
proof -
  from assms have r: "rd arr high = Inr (arr ! nat high)" by (simp add: rd_def)
  from partition_loop_returns [of "low - 1" low high arr "arr ! nat high"] assms
  obtain mid i where loop: "partition_loop arr high (arr ! nat high) (low - 1) low = Inr (mid, i)"
    by auto
  from partition_loop_index [OF loop] assms have i: "low - 1 \<le> i" "i \<le> high - 1" by simp_all
  from partition_loop_frame [OF loop, of low] have "length mid = length arr"
    by (simp add: unchanged_outside_length)
  with swap_returns [of "i + 1" mid high] i assms
  obtain arr' where "swap mid (i + 1) high = Inr arr'" by auto
  with r loop show ?thesis by (simp add: partition_def)
qed

lemma quickSortRecursive_returns:
  "0 \<le> low \<Longrightarrow> high < int (length arr) \<Longrightarrow> \<exists>arr'. quickSortRecursive arr low high = Inr arr'"
proof (induction arr low high rule: quickSortRecursive.induct)
  case (1 arr low high)
  note unfold = quickSortRecursive.simps [of arr low high]
  show ?case
  proof (cases "low < high")
    case False
    with unfold show ?thesis by simp
  next
    case True
    show ?thesis
    proof (cases "high - low + 1 < INSERTION_SORT_THRESHOLD")
      case small: True
      with True unfold insertionSort_returns [OF "1.prems"] show ?thesis by simp
    next
      case big: False
      from partition_returns [of low high arr] "1.prems" True
      obtain a1 p where part: "partition arr low high = Inr (a1, p)" by auto
      from partition_index [OF part True] have p: "low \<le> p" "p \<le> high" by simp_all
      from partition_frame [OF part] True have l1: "length a1 = length arr"
        by (simp add: unchanged_outside_length)
      with p "1.prems" have "0 \<le> low" "p - 1 < int (length a1)" by simp_all
      from "1.IH"(1) [OF True big part refl this]
      obtain a2 where left: "quickSortRecursive a1 low (p - 1) = Inr a2" by blast
      from quickSortRecursive_frame [OF left] l1 have "length a2 = length arr"
        by (simp add: unchanged_outside_length)
      with p "1.prems" have "0 \<le> p + 1" "high < int (length a2)" by simp_all
      from "1.IH"(2) [OF True big part refl left this]
      obtain a3 where "quickSortRecursive a2 (p + 1) high = Inr a3" by blast
      with True big part left unfold show ?thesis by simp
    qed
  qed
qed


lemma copy_in_returns:
  "0 \<le> i \<Longrightarrow> 0 \<le> off \<Longrightarrow> off + cnt \<le> int (length src) \<Longrightarrow> cnt \<le> int (length dst) \<Longrightarrow>
   \<exists>dst'. copy_in dst src off cnt i = Inr dst' \<and> length dst' = length dst"
proof (induction dst src off cnt i rule: copy_in.induct)
  case (1 dst src off cnt i)
  note unfold = copy_in.simps [of dst src off cnt i]
  show ?case
  proof (cases "i < cnt")
    case False
    with unfold show ?thesis by simp
  next
    case True
    with "1.prems" have r: "rd src (off + i) = Inr (src ! nat (off + i))"
      and w: "wr dst i (src ! nat (off + i)) = Inr (dst[nat i := src ! nat (off + i)])"
      by (simp_all add: rd_def wr_def)
    from "1.prems" have "0 \<le> i + 1" "0 \<le> off" "off + cnt \<le> int (length src)"
      "cnt \<le> int (length (dst[nat i := src ! nat (off + i)]))" by simp_all
    from "1.IH" [OF True r w this] True r w unfold show ?thesis by simp
  qed
qed

lemma merge_main_returns:
  "0 \<le> i \<Longrightarrow> 0 \<le> j \<Longrightarrow> i \<le> n1 \<Longrightarrow> j \<le> n2 \<Longrightarrow> n1 \<le> int (length L) \<Longrightarrow>
   n2 \<le> int (length R) \<Longrightarrow> 0 \<le> k \<Longrightarrow> k + (n1 - i) + (n2 - j) \<le> int (length arr) \<Longrightarrow>
   \<exists>res. merge_main arr L R n1 n2 i j k = Inr res"
proof (induction arr L R n1 n2 i j k rule: merge_main.induct)
  case (1 arr L R n1 n2 i j k)
  note unfold = merge_main.simps [of arr L R n1 n2 i j k]
  show ?case
  proof (cases "i < n1 \<and> j < n2")
    case False
    with unfold show ?thesis by (simp del: de_Morgan_conj)
  next
    case True
    with "1.prems" have a: "rd L i = Inr (L ! nat i)" and b: "rd R j = Inr (R ! nat j)"
      by (simp_all add: rd_def)
    from True "1.prems" have w: "wr arr k v = Inr (arr[nat k := v])" for v
      by (simp add: wr_def)
    show ?thesis
    proof (cases "L ! nat i \<le> R ! nat j")
      case le: True
      from True "1.prems" have "0 \<le> i + 1" "0 \<le> j" "i + 1 \<le> n1" "j \<le> n2"
        "n1 \<le> int (length L)" "n2 \<le> int (length R)" "0 \<le> k + 1"
        "k + 1 + (n1 - (i + 1)) + (n2 - j) \<le> int (length (arr[nat k := L ! nat i]))"
        by simp_all
      from "1.IH"(1) [OF True a b le w this] True a b le w unfold show ?thesis by simp
    next
      case gt: False
      from True "1.prems" have "0 \<le> i" "0 \<le> j + 1" "i \<le> n1" "j + 1 \<le> n2"
        "n1 \<le> int (length L)" "n2 \<le> int (length R)" "0 \<le> k + 1"
        "k + 1 + (n1 - i) + (n2 - (j + 1)) \<le> int (length (arr[nat k := R ! nat j]))"
        by simp_all
      from "1.IH"(2) [OF True a b gt w this] True a b gt w unfold show ?thesis by simp
    qed
  qed
qed

lemma merge_rest_returns:
  "0 \<le> i \<Longrightarrow> cnt \<le> int (length buf) \<Longrightarrow> 0 \<le> k \<Longrightarrow> k + (cnt - i) \<le> int (length arr) \<Longrightarrow>
   \<exists>res. merge_rest arr buf cnt i k = Inr res"
proof (induction arr buf cnt i k rule: merge_rest.induct)
  case (1 arr buf cnt i k)
  note unfold = merge_rest.simps [of arr buf cnt i k]
  show ?case
  proof (cases "i < cnt")
    case False
    with unfold show ?thesis by simp
  next
    case True
    with "1.prems" have r: "rd buf i = Inr (buf ! nat i)"
      and w: "wr arr k (buf ! nat i) = Inr (arr[nat k := buf ! nat i])"
      by (simp_all add: rd_def wr_def)
    from True "1.prems" have "0 \<le> i + 1" "cnt \<le> int (length buf)" "0 \<le> k + 1"
      "k + 1 + (cnt - (i + 1)) \<le> int (length (arr[nat k := buf ! nat i]))" by simp_all
    from "1.IH" [OF True r w this] True r w unfold show ?thesis by simp
  qed
qed

lemma merge_returns:
  assumes "0 \<le> l" and "l - 1 \<le> m" and "m \<le> r" and "r < int (length arr)"
  shows "\<exists>arr'. merge arr l m r = Inr arr'"
proof -
  define n1 where "n1 = m - l + 1"
  define n2 where "n2 = r - m"
  from assms have n: "0 \<le> n1" "0 \<le> n2" by (simp_all add: n1_def n2_def)
  then have al: "malloc_ints n1 = Some (replicate (nat n1) 0)"
    "malloc_ints n2 = Some (replicate (nat n2) 0)"
    by (simp_all add: malloc_ints_def)
  from copy_in_returns [of 0 l n1 arr "replicate (nat n1) 0"] assms n
  obtain L where L: "copy_in (replicate (nat n1) 0) arr l n1 0 = Inr L" and lenL: "length L = nat n1"
    by (auto simp: n1_def)
  from copy_in_returns [of 0 "m + 1" n2 arr "replicate (nat n2) 0"] assms n
  obtain R where R: "copy_in (replicate (nat n2) 0) arr (m + 1) n2 0 = Inr R" and lenR: "length R = nat n2"
    by (auto simp: n2_def)
  from merge_main_returns [of 0 0 n1 n2 L R l arr] assms n lenL lenR
  obtain a1 i j k where main: "merge_main arr L R n1 n2 0 0 l = Inr (a1, i, j, k)"
    by (auto simp: n1_def n2_def)
  note m1 = merge_main_frame [OF main]
  from m1 have len1: "length a1 = length arr" by (auto dest: unchanged_outside_length)
  from m1 n have ij: "0 \<le> i" "i \<le> n1" "0 \<le> j" "j \<le> n2" "k = l + i + j" by auto
  from merge_rest_returns [of i n1 L k a1] ij lenL len1 assms n
  obtain a2 k2 where restL: "merge_rest a1 L n1 i k = Inr (a2, k2)"
    by (auto simp: n1_def n2_def)
  note m2 = merge_rest_frame [OF restL]
  from m2 len1 have len2: "length a2 = length arr" by (auto dest: unchanged_outside_length)
  from m2 ij have k2: "k2 = l + n1 + j" by simp
  from merge_rest_returns [of j n2 R k2 a2] ij lenR len2 assms n k2
  obtain a3 k3 where restR: "merge_rest a2 R n2 j k2 = Inr (a3, k3)"
    by (auto simp: n1_def n2_def)
  from al L R main restL restR show ?thesis
    by (simp add: merge_def Let_def n1_def [symmetric] n2_def [symmetric])
qed

lemma mergeSort_returns:
  "0 \<le> l \<Longrightarrow> r < int (length arr) \<Longrightarrow> \<exists>arr'. mergeSort arr l r = Inr arr'"
proof (induction arr l r rule: mergeSort.induct)
  case (1 arr l r)
  note unfold = mergeSort.simps [of arr l r]
  show ?case
  proof (cases "l < r")
    case False
    with unfold show ?thesis by simp
  next
    case True
    define m where "m = l + (r - l) div 2"
    from True have m: "l \<le> m" "m < r" by (simp_all add: m_def)
    with "1.prems" have "0 \<le> l" "m < int (length arr)" by simp_all
    from "1.IH"(1) [OF True m_def this]
    obtain a1 where left: "mergeSort arr l m = Inr a1" by blast
    from mergeSort_frame [OF left] have len1: "length a1 = length arr"
      by (simp add: unchanged_outside_length)
    with m "1.prems" have "0 \<le> m + 1" "r < int (length a1)" by simp_all
    from "1.IH"(2) [OF True m_def left this]
    obtain a2 where right: "mergeSort a1 (m + 1) r = Inr a2" by blast
    from mergeSort_frame [OF right] len1 have len2: "length a2 = length arr"
      by (simp add: unchanged_outside_length)
    from merge_returns [of l m r a2] m "1.prems" len2
    obtain a3 where "merge a2 l m r = Inr a3" by auto
    with True left right unfold show ?thesis by (simp add: Let_def m_def)
  qed
qed

text \<open>
  Claim C10. Whenever \<open>insertionSort\<close>, \<open>quickSort\<close> or \<open>mergeSort\<close> returns from
  a call on the range \<open>[left, right]\<close>, the array has its old length and every cell
  outside the range its old value; this holds for every array and all bounds. And when
  the range lies inside the array, each of the three calls does return.
\<close>

theorem backends_write_inside_range:
  "(insertionSort arr left right = Inr a1 \<longrightarrow> unchanged_outside arr a1 left right)
   \<and> (quickSort arr left right = Inr a2 \<longrightarrow> unchanged_outside arr a2 left right)
   \<and> (mergeSort arr left right = Inr a3 \<longrightarrow> unchanged_outside arr a3 left right)
   \<and> (0 \<le> left \<and> right < int (length arr) \<longrightarrow>
        (\<exists>a. insertionSort arr left right = Inr a)
        \<and> (\<exists>a. quickSort arr left right = Inr a)
        \<and> (\<exists>a. mergeSort arr left right = Inr a))"
  by (simp add: insertionSort_frame quickSort_def quickSortRecursive_frame mergeSort_frame
      insertionSort_returns quickSortRecursive_returns mergeSort_returns)

theorem backends_write_inside_range_witness:
  "insertionSort fenced_permutation 1 32 =
       Inr [100, 0, 1, 2, 3, 4, 5, 6, 7, 8, 9, 10, 11, 12, 13, 14, 15, 16, 17, 18,
            19, 20, 21, 22, 23, 24, 25, 26, 27, 28, 29, 30, 31, - 100]
   \<and> quickSort fenced_permutation 1 32 =
       Inr [100, 0, 1, 2, 3, 4, 5, 6, 7, 8, 9, 10, 11, 12, 13, 14, 15, 16, 17, 18,
            19, 20, 21, 22, 23, 24, 25, 26, 27, 28, 29, 30, 31, - 100]
   \<and> mergeSort fenced_permutation 1 32 =
       Inr [100, 0, 1, 2, 3, 4, 5, 6, 7, 8, 9, 10, 11, 12, 13, 14, 15, 16, 17, 18,
            19, 20, 21, 22, 23, 24, 25, 26, 27, 28, 29, 30, 31, - 100]
   \<and> unchanged_outside fenced_permutation
       [100, 0, 1, 2, 3, 4, 5, 6, 7, 8, 9, 10, 11, 12, 13, 14, 15, 16, 17, 18,
        19, 20, 21, 22, 23, 24, 25, 26, 27, 28, 29, 30, 31, - 100] 1 32"
proof -
  have h1: "insertionSort fenced_permutation 1 32 =
       Inr [100, 0, 1, 2, 3, 4, 5, 6, 7, 8, 9, 10, 11, 12, 13, 14, 15, 16, 17, 18,
            19, 20, 21, 22, 23, 24, 25, 26, 27, 28, 29, 30, 31, - 100]"
    unfolding fenced_permutation_def by (simp add: run_simps cong: rbind_weak_cong)
  have h2: "quickSort fenced_permutation 1 32 =
       Inr [100, 0, 1, 2, 3, 4, 5, 6, 7, 8, 9, 10, 11, 12, 13, 14, 15, 16, 17, 18,
            19, 20, 21, 22, 23, 24, 25, 26, 27, 28, 29, 30, 31, - 100]"
    unfolding fenced_permutation_def by (simp add: run_simps cong: rbind_weak_cong)
  have h3: "mergeSort fenced_permutation 1 32 =
       Inr [100, 0, 1, 2, 3, 4, 5, 6, 7, 8, 9, 10, 11, 12, 13, 14, 15, 16, 17, 18,
            19, 20, 21, 22, 23, 24, 25, 26, 27, 28, 29, 30, 31, - 100]"
    unfolding fenced_permutation_def by (simp add: run_simps cong: rbind_weak_cong)
  from backends_write_inside_range [of fenced_permutation 1 32
      "[100, 0, 1, 2, 3, 4, 5, 6, 7, 8, 9, 10, 11, 12, 13, 14, 15, 16, 17, 18,
        19, 20, 21, 22, 23, 24, 25, 26, 27, 28, 29, 30, 31, - 100]"
      "[100, 0, 1, 2, 3, 4, 5, 6, 7, 8, 9, 10, 11, 12, 13, 14, 15, 16, 17, 18,
        19, 20, 21, 22, 23, 24, 25, 26, 27, 28, 29, 30, 31, - 100]"
      "[100, 0, 1, 2, 3, 4, 5, 6, 7, 8, 9, 10, 11, 12, 13, 14, 15, 16, 17, 18,
        19, 20, 21, 22, 23, 24, 25, 26, 27, 28, 29, 30, 31, - 100]"] h1 h2 h3
  show ?thesis by blast
qed

section \<open>The comparison backends sort their range\<close>

subsection \<open>Insertion sort\<close>

lemma ins_right_Nil: "ins_right key [] = [key]"
  by (simp add: ins_right_def)

lemma ins_right_snoc:
  "ins_right key (B @ [v]) = (if key < v then ins_right key B @ [v] else B @ [v, key])"
  by (simp add: ins_right_def)

lemma mset_ins_right: "mset (ins_right key A) = add_mset key (mset A)"
proof -
  have "mset (takeWhile P xs) + mset (dropWhile P xs) = mset xs" for P and xs :: "int list"
    by (metis mset_append takeWhile_dropWhile_id)
  from this [of "\<lambda>v. key < v" "rev A"] show ?thesis
    by (simp add: ins_right_def add.commute)
qed

lemma set_ins_right: "set (ins_right key A) = insert key (set A)"
  by (metis mset_ins_right set_mset_add_mset_insert set_mset_mset)

lemma sorted_ins_right: "sorted A \<Longrightarrow> sorted (ins_right key A)"
proof (induction A rule: rev_induct)
  case Nil
  show ?case by (simp add: ins_right_Nil)
next
  case (snoc v B)
  then have B: "sorted B" "\<forall>x \<in> set B. x \<le> v" and ih: "sorted (ins_right key B)"
    by (simp_all add: sorted_append)
  show ?case
  proof (cases "key < v")
    case True
    with B ih show ?thesis
      by (auto simp: ins_right_snoc sorted_append set_ins_right)
  next
    case False
    with B show ?thesis
      by (auto simp: ins_right_snoc sorted_append)
  qed
qed

lemma insertion_shift_result:
  "insertion_shift (pre @ A @ h # post) (int (length pre)) key
     (int (length pre) + int (length A) - 1) = Inr (pre @ ins_right key A @ post)"
proof (induction A arbitrary: h post rule: rev_induct)
  case Nil
  have "wr (pre @ h # post) (int (length pre)) key = Inr (pre @ key # post)"
    by (simp add: wr_def)
  then show ?case
    by (simp add: insertion_shift.simps [of _ "int (length pre)" key "int (length pre) - 1"]
        ins_right_Nil)
next
  case (snoc v B)
  let ?arr = "pre @ (B @ [v]) @ h # post"
  let ?j = "int (length pre) + int (length B)"
  have r: "rd ?arr ?j = Inr v"
    by (simp add: rd_def nth_append nat_add_distrib)
  have unfold: "insertion_shift ?arr (int (length pre)) key
      (int (length pre) + int (length (B @ [v])) - 1) =
      (if v > key then
         rbind (wr ?arr (?j + 1) v) (\<lambda>arr'. insertion_shift arr' (int (length pre)) key (?j - 1))
       else wr ?arr (?j + 1) key)"
    using r by (subst insertion_shift.simps) (simp add: add.commute add.left_commute)
  show ?case
  proof (cases "v > key")
    case False
    have "wr ?arr (?j + 1) key = Inr (pre @ B @ v # key # post)"
      by (simp add: wr_def list_update_append nat_add_distrib)
    with False show ?thesis
      unfolding unfold by (simp add: ins_right_snoc)
  next
    case True
    have w: "wr ?arr (?j + 1) v = Inr (pre @ B @ v # v # post)"
      by (simp add: wr_def list_update_append nat_add_distrib)
    from snoc.IH [of v "v # post"]
    have "insertion_shift (pre @ B @ v # v # post) (int (length pre)) key (?j - 1) =
        Inr (pre @ ins_right key B @ v # post)" by simp
    with True w show ?thesis
      unfolding unfold by (simp add: ins_right_snoc)
  qed
qed

lemma length_ins_right: "length (ins_right key A) = Suc (length A)"
  by (metis mset_ins_right size_add_mset size_mset)

lemma insertion_loop_result:
  "insertion_loop (pre @ A @ U @ post) (int (length pre))
     (int (length pre) + int (length A) + int (length U) - 1)
     (int (length pre) + int (length A)) = Inr (pre @ fold_ins A U @ post)"
proof (induction U arbitrary: A)
  case Nil
  show ?case
    by (subst insertion_loop.simps) (simp add: fold_ins_def)
next
  case (Cons u U)
  let ?arr = "pre @ A @ (u # U) @ post"
  let ?i = "int (length pre) + int (length A)"
  let ?right = "int (length pre) + int (length A) + int (length (u # U)) - 1"
  have r: "rd ?arr ?i = Inr u"
    by (simp add: rd_def nth_append nat_add_distrib)
  from insertion_shift_result [of pre A u "U @ post" u]
  have shift: "insertion_shift ?arr (int (length pre)) u (?i - 1) =
      Inr (pre @ ins_right u A @ U @ post)"
    by simp
  from Cons.IH [of "ins_right u A"]
  have rest: "insertion_loop (pre @ ins_right u A @ U @ post) (int (length pre)) ?right (?i + 1) =
      Inr (pre @ fold_ins (ins_right u A) U @ post)"
    by (simp add: length_ins_right add.commute add.left_commute)
  have "?i \<le> ?right" by simp
  with r shift rest show ?case
    by (subst insertion_loop.simps) (simp add: fold_ins_def)
qed

lemma sorted_fold_ins: "sorted A \<Longrightarrow> sorted (fold_ins A U)"
  unfolding fold_ins_def by (induction U arbitrary: A) (simp_all add: sorted_ins_right)

lemma mset_fold_ins: "mset (fold_ins A U) = mset A + mset U"
  unfolding fold_ins_def by (induction U arbitrary: A) (simp_all add: mset_ins_right)

lemma slice_decomp:
  assumes "0 \<le> left" and "left \<le> right + 1" and "right < int (length arr)"
  shows "arr = take (nat left) arr @ slice arr left right @ drop (nat (right + 1)) arr"
    and "length (take (nat left) arr) = nat left"
    and "length (slice arr left right) = nat (right - left + 1)"
proof -
  from assms have "nat (right - left + 1) + nat left = nat (right + 1)" by simp
  then have "drop (nat (right - left + 1)) (drop (nat left) arr) = drop (nat (right + 1)) arr"
    by simp
  then have "drop (nat left) arr = slice arr left right @ drop (nat (right + 1)) arr"
    unfolding slice_def by (metis append_take_drop_id)
  then show "arr = take (nat left) arr @ slice arr left right @ drop (nat (right + 1)) arr"
    by (metis append_take_drop_id)
  from assms show "length (take (nat left) arr) = nat left" by simp
  from assms show "length (slice arr left right) = nat (right - left + 1)"
    by (simp add: slice_def)
qed

text \<open>
  On a range inside the array \<open>insertionSort\<close> returns, and the range is then sorted
  and a permutation of what it was; the cells around it are the old ones.
\<close>

lemma insertionSort_correct:
  assumes "0 \<le> left" and "left \<le> right + 1" and "right < int (length arr)"
  shows "\<exists>mid. insertionSort arr left right =
        Inr (take (nat left) arr @ mid @ drop (nat (right + 1)) arr)
      \<and> sorted mid \<and> mset mid = mset (slice arr left right)"
proof -
  let ?pre = "take (nat left) arr" and ?post = "drop (nat (right + 1)) arr"
  from slice_decomp [OF assms]
  have dec: "arr = ?pre @ slice arr left right @ ?post"
    and lp: "length ?pre = nat left"
    and lm: "length (slice arr left right) = nat (right - left + 1)"
    by simp_all
  from lp assms(1) have left: "left = int (length ?pre)" by simp
  show ?thesis
  proof (cases "slice arr left right")
    case Nil
    with lm assms have "right < left + 1" by simp
    then have "insertionSort arr left right = Inr arr"
      by (simp add: insertionSort_def insertion_loop.simps [of _ left right])
    with dec Nil show ?thesis by simp
  next
    case (Cons a U)
    with lm assms(2) have right: "right = left + int (length U)" by simp
    have "insertion_loop (?pre @ [a] @ U @ ?post) (int (length ?pre))
        (int (length ?pre) + int (length [a]) + int (length U) - 1)
        (int (length ?pre) + int (length [a])) = Inr (?pre @ fold_ins [a] U @ ?post)"
      by (rule insertion_loop_result)
    then have "insertion_loop (?pre @ [a] @ U @ ?post) left right (left + 1) =
        Inr (?pre @ fold_ins [a] U @ ?post)"
      unfolding left [symmetric] right by simp
    with dec Cons have "insertionSort arr left right = Inr (?pre @ fold_ins [a] U @ ?post)"
      by (simp add: insertionSort_def)
    moreover have "sorted (fold_ins [a] U)" by (simp add: sorted_fold_ins)
    moreover have "mset (fold_ins [a] U) = mset (slice arr left right)"
      by (simp add: mset_fold_ins Cons)
    ultimately show ?thesis by blast
  qed
qed

subsection \<open>Merge sort\<close>

lemma mset_fmerge: "mset (fmerge as bs) = mset as + mset bs"
  by (induction as bs rule: fmerge.induct) simp_all

lemma set_fmerge: "set (fmerge as bs) = set as \<union> set bs"
  by (metis mset_fmerge set_mset_mset set_mset_union)

lemma sorted_fmerge: "sorted as \<Longrightarrow> sorted bs \<Longrightarrow> sorted (fmerge as bs)"
  by (induction as bs rule: fmerge.induct) (auto simp: set_fmerge)

lemma length_fmerge: "length (fmerge as bs) = length as + length bs"
  by (metis mset_fmerge size_mset size_union)

lemma copy_in_result:
  "0 \<le> off \<Longrightarrow> nat off + length D + length Z \<le> length src \<Longrightarrow>
   copy_in (D @ Z) src off (int (length D) + int (length Z)) (int (length D)) =
     Inr (D @ take (length Z) (drop (nat off + length D) src))"
proof (induction Z arbitrary: D)
  case Nil
  show ?case by (subst copy_in.simps) simp
next
  case (Cons z Z)
  let ?k = "nat off + length D"
  from Cons.prems have k: "?k < length src" by simp
  from Cons.prems have r: "rd src (off + int (length D)) = Inr (src ! ?k)"
    by (simp add: rd_def nat_add_distrib)
  have w: "wr (D @ z # Z) (int (length D)) (src ! ?k) = Inr ((D @ [src ! ?k]) @ Z)"
    by (simp add: wr_def)
  from Cons.prems have "nat off + length (D @ [src ! ?k]) + length Z \<le> length src" by simp
  from Cons.IH [OF Cons.prems(1) this]
  have rest: "copy_in ((D @ [src ! ?k]) @ Z) src off (int (length D) + int (length (z # Z)))
      (int (length D) + 1) = Inr (D @ src ! ?k # take (length Z) (drop (Suc ?k) src))"
    by (simp add: add.commute add.left_commute)
  from k have "take (length (z # Z)) (drop ?k src) = src ! ?k # take (length Z) (drop (Suc ?k) src)"
    by (simp add: Cons_nth_drop_Suc [symmetric])
  with r w rest show ?case
    by (subst copy_in.simps) simp
qed

lemma merge_rest_result:
  "length X = length B2 \<Longrightarrow>
   merge_rest (pre @ X @ post) (B1 @ B2) (int (length B1) + int (length B2)) (int (length B1))
     (int (length pre)) = Inr (pre @ B2 @ post, int (length pre) + int (length B2))"
proof (induction B2 arbitrary: B1 pre X)
  case Nil
  then show ?case by (subst merge_rest.simps) simp
next
  case (Cons b B2)
  then obtain x X' where X: "X = x # X'" and len: "length X' = length B2"
    by (cases X) simp_all
  have r: "rd (B1 @ b # B2) (int (length B1)) = Inr b"
    by (simp add: rd_def)
  have w: "wr (pre @ (x # X') @ post) (int (length pre)) b = Inr ((pre @ [b]) @ X' @ post)"
    by (simp add: wr_def)
  from Cons.IH [OF len, of "pre @ [b]" "B1 @ [b]"]
  have rest: "merge_rest ((pre @ [b]) @ X' @ post) (B1 @ b # B2)
      (int (length B1) + int (length (b # B2))) (int (length B1) + 1) (int (length pre) + 1) =
      Inr (pre @ b # B2 @ post, int (length pre) + int (length (b # B2)))"
    by (simp add: add.commute add.left_commute)
  from r w rest show ?case
    unfolding X by (subst merge_rest.simps) simp
qed

lemma merge_loops_result:
  "length X = length L2 + length R2 \<Longrightarrow>
   merge_loops (pre @ X @ post) (L1 @ L2) (R1 @ R2)
     (int (length L1) + int (length L2)) (int (length R1) + int (length R2))
     (int (length L1)) (int (length R1)) (int (length pre)) = Inr (pre @ fmerge L2 R2 @ post)"
proof (induction L2 R2 arbitrary: L1 R1 pre X rule: fmerge.induct)
  case (1 bs)
  have main: "merge_main (pre @ X @ post) (L1 @ []) (R1 @ bs)
      (int (length L1) + int (length ([]::int list))) (int (length R1) + int (length bs))
      (int (length L1)) (int (length R1)) (int (length pre)) =
      Inr (pre @ X @ post, int (length L1), int (length R1), int (length pre))"
    by (subst merge_main.simps) simp
  have restL: "merge_rest (pre @ X @ post) (L1 @ []) (int (length L1) + int (length ([]::int list)))
      (int (length L1)) (int (length pre)) = Inr (pre @ X @ post, int (length pre))"
    by (subst merge_rest.simps) simp
  from merge_rest_result [of X bs pre post R1] "1.prems"
  have restR: "merge_rest (pre @ X @ post) (R1 @ bs) (int (length R1) + int (length bs))
      (int (length R1)) (int (length pre)) = Inr (pre @ bs @ post, int (length pre) + int (length bs))"
    by simp
  from main restL restR show ?case
    by (simp add: merge_loops_def)
next
  case (2 a as)
  have main: "merge_main (pre @ X @ post) (L1 @ a # as) (R1 @ [])
      (int (length L1) + int (length (a # as))) (int (length R1) + int (length ([]::int list)))
      (int (length L1)) (int (length R1)) (int (length pre)) =
      Inr (pre @ X @ post, int (length L1), int (length R1), int (length pre))"
    by (subst merge_main.simps) simp
  from merge_rest_result [of X "a # as" pre post L1] "2.prems"
  have restL: "merge_rest (pre @ X @ post) (L1 @ a # as) (int (length L1) + int (length (a # as)))
      (int (length L1)) (int (length pre)) =
      Inr (pre @ (a # as) @ post, int (length pre) + int (length (a # as)))"
    by simp
  have restR: "merge_rest arr2 (R1 @ []) (int (length R1) + int (length ([]::int list)))
      (int (length R1)) k2 = Inr (arr2, k2)" for arr2 k2
    by (subst merge_rest.simps) simp
  from main restL restR show ?case
    by (simp add: merge_loops_def)
next
  case (3 a as b bs)
  from "3.prems" obtain x X' where X: "X = x # X'"
    and len: "length X' = length as + length (b # bs)" "length X' = length (a # as) + length bs"
    by (cases X) simp_all
  let ?L = "L1 @ a # as" and ?R = "R1 @ b # bs"
  have ra: "rd ?L (int (length L1)) = Inr a" and rb: "rd ?R (int (length R1)) = Inr b"
    by (simp_all add: rd_def)
  have w: "wr (pre @ (x # X') @ post) (int (length pre)) v = Inr ((pre @ [v]) @ X' @ post)" for v
    by (simp add: wr_def)
  have unfold: "merge_main (pre @ X @ post) ?L ?R
      (int (length L1) + int (length (a # as))) (int (length R1) + int (length (b # bs)))
      (int (length L1)) (int (length R1)) (int (length pre)) =
      (if a \<le> b then
         merge_main ((pre @ [a]) @ X' @ post) ?L ?R
           (int (length L1) + int (length (a # as))) (int (length R1) + int (length (b # bs)))
           (int (length L1) + 1) (int (length R1)) (int (length pre) + 1)
       else
         merge_main ((pre @ [b]) @ X' @ post) ?L ?R
           (int (length L1) + int (length (a # as))) (int (length R1) + int (length (b # bs)))
           (int (length L1)) (int (length R1) + 1) (int (length pre) + 1))"
    unfolding X using ra rb w by (subst merge_main.simps) simp
  show ?case
  proof (cases "a \<le> b")
    case True
    from "3.IH"(1) [OF True len(1), of "pre @ [a]" "L1 @ [a]" R1]
    have "merge_loops ((pre @ [a]) @ X' @ post) ?L ?R
        (int (length L1) + int (length (a # as))) (int (length R1) + int (length (b # bs)))
        (int (length L1) + 1) (int (length R1)) (int (length pre) + 1) =
        Inr (pre @ a # fmerge as (b # bs) @ post)"
      by (simp add: add.commute add.left_commute)
    with True show ?thesis
      unfolding merge_loops_def unfold by simp
  next
    case False
    from "3.IH"(2) [OF False len(2), of "pre @ [b]" L1 "R1 @ [b]"]
    have "merge_loops ((pre @ [b]) @ X' @ post) ?L ?R
        (int (length L1) + int (length (a # as))) (int (length R1) + int (length (b # bs)))
        (int (length L1)) (int (length R1) + 1) (int (length pre) + 1) =
        Inr (pre @ b # fmerge (a # as) bs @ post)"
      by (simp add: add.commute add.left_commute)
    with False show ?thesis
      unfolding merge_loops_def unfold by simp
  qed
qed

lemma merge_result:
  "merge (pre @ A @ B @ post) (int (length pre)) (int (length pre) + int (length A) - 1)
     (int (length pre) + int (length A) + int (length B) - 1) = Inr (pre @ fmerge A B @ post)"
proof -
  let ?arr = "pre @ A @ B @ post"
  let ?l = "int (length pre)"
  let ?m = "int (length pre) + int (length A) - 1"
  let ?r = "int (length pre) + int (length A) + int (length B) - 1"
  have n: "?m - ?l + 1 = int (length A)" "?r - ?m = int (length B)" by simp_all
  have al: "malloc_ints (int (length A)) = Some (replicate (length A) 0)"
    "malloc_ints (int (length B)) = Some (replicate (length B) 0)"
    by (simp_all add: malloc_ints_def)
  from copy_in_result [of ?l "[]" "replicate (length A) 0" ?arr]
  have L: "copy_in (replicate (length A) 0) ?arr ?l (int (length A)) 0 = Inr A" by simp
  from copy_in_result [of "?m + 1" "[]" "replicate (length B) 0" ?arr]
  have R: "copy_in (replicate (length B) 0) ?arr (?m + 1) (int (length B)) 0 = Inr B"
    by (simp add: nat_add_distrib)
  from merge_loops_result [of "A @ B" A B pre post "[]" "[]"]
  have loops: "merge_loops ?arr A B (int (length A)) (int (length B)) 0 0 ?l =
      Inr (pre @ fmerge A B @ post)" by simp
  show ?thesis
    unfolding merge_def Let_def n al using L R loops
    by (simp add: merge_loops_def)
qed


lemma mset_fmsort: "mset (fmsort xs) = mset xs"
proof (induction xs rule: fmsort.induct)
  case (1 xs)
  show ?case
  proof (cases "length xs \<le> 1")
    case True
    then show ?thesis by (subst fmsort.simps) simp
  next
    case False
    have "mset (take h xs) + mset (drop h xs) = mset xs" for h
      by (metis append_take_drop_id mset_append)
    with "1.IH" [OF False] False show ?thesis
      by (subst fmsort.simps) (simp add: mset_fmerge)
  qed
qed

lemma length_fmsort: "length (fmsort xs) = length xs"
  by (metis mset_fmsort size_mset)

lemma sorted_fmsort: "sorted (fmsort xs)"
proof (induction xs rule: fmsort.induct)
  case (1 xs)
  show ?case
  proof (cases "length xs \<le> 1")
    case True
    then have "sorted xs" by (cases xs) simp_all
    with True show ?thesis by (subst fmsort.simps) simp
  next
    case False
    with "1.IH" show ?thesis
      by (subst fmsort.simps) (simp add: sorted_fmerge)
  qed
qed

lemma mergeSort_result:
  "mergeSort (pre @ mid @ post) (int (length pre)) (int (length pre) + int (length mid) - 1) =
     Inr (pre @ fmsort mid @ post)"
proof (induction mid arbitrary: pre post rule: fmsort.induct)
  case (1 mid)
  let ?l = "int (length pre)"
  let ?r = "int (length pre) + int (length mid) - 1"
  show ?case
  proof (cases "length mid \<le> 1")
    case True
    then have "\<not> ?l < ?r" by simp
    with True show ?thesis
      by (subst mergeSort.simps, subst fmsort.simps) simp
  next
    case False
    define h where "h = (length mid - 1) div 2 + 1"
    define A where "A = take h mid"
    define B where "B = drop h mid"
    from False have h: "h < length mid" "1 \<le> h" by (simp_all add: h_def)
    then have lenA: "length A = h" and lenB: "length B = length mid - h"
      by (simp_all add: A_def B_def)
    have mid: "mid = A @ B" by (simp add: A_def B_def)
    define mm where "mm = ?l + int (length A) - 1"
    from False have "(int (length mid) - 1) div 2 = int ((length mid - 1) div 2)"
      by (simp add: zdiv_int of_nat_diff)
    then have m: "int (length pre) + (int (length mid) - 1) div 2 = mm"
      unfolding mm_def lenA h_def by simp
    have r: "?r = ?l + int (length A) + int (length B) - 1"
      using h by (simp add: lenA lenB)
    from "1.IH"(1) [OF False, of pre "B @ post", folded h_def A_def]
    have left: "mergeSort (pre @ mid @ post) ?l mm = Inr (pre @ fmsort A @ B @ post)"
      by (simp add: mid mm_def)
    from "1.IH"(2) [OF False, of "pre @ fmsort A" post, folded h_def B_def]
    have right: "mergeSort (pre @ fmsort A @ B @ post) (mm + 1) ?r =
        Inr (pre @ fmsort A @ fmsort B @ post)"
      unfolding r mm_def by (simp add: length_fmsort add.commute add.left_commute)
    from merge_result [of pre "fmsort A" "fmsort B" post]
    have mrg: "merge (pre @ fmsort A @ fmsort B @ post) ?l mm ?r =
        Inr (pre @ fmerge (fmsort A) (fmsort B) @ post)"
      unfolding r mm_def by (simp add: length_fmsort)
    from False have lr: "?l < ?r" by simp
    have eq: "fmsort mid = fmerge (fmsort A) (fmsort B)"
      using False by (subst fmsort.simps) (simp add: A_def B_def h_def)
    have "mergeSort (pre @ mid @ post) ?l ?r =
        rbind (mergeSort (pre @ mid @ post) ?l mm) (\<lambda>arr1.
        rbind (mergeSort arr1 (mm + 1) ?r) (\<lambda>arr2. merge arr2 ?l mm ?r))"
      using lr by (subst mergeSort.simps) (simp add: Let_def m)
    with left right mrg eq show ?thesis by simp
  qed
qed

text \<open>
  On a range inside the array \<open>mergeSort\<close> returns, and the range is then sorted and a
  permutation of what it was; the cells around it are the old ones.
\<close>

lemma mergeSort_correct:
  assumes "0 \<le> left" and "left \<le> right + 1" and "right < int (length arr)"
  shows "\<exists>mid. mergeSort arr left right =
        Inr (take (nat left) arr @ mid @ drop (nat (right + 1)) arr)
      \<and> sorted mid \<and> mset mid = mset (slice arr left right)"
proof -
  let ?pre = "take (nat left) arr" and ?post = "drop (nat (right + 1)) arr"
  from slice_decomp [OF assms]
  have dec: "arr = ?pre @ slice arr left right @ ?post"
    and lp: "length ?pre = nat left"
    and lm: "length (slice arr left right) = nat (right - left + 1)"
    by simp_all
  from lp assms(1) have left: "int (length ?pre) = left" by simp
  from lm assms(2) have right: "left + int (length (slice arr left right)) - 1 = right"
    by simp
  from mergeSort_result [of ?pre "slice arr left right" ?post]
  have "mergeSort arr left right = Inr (?pre @ fmsort (slice arr left right) @ ?post)"
    unfolding left right dec [symmetric] .
  then show ?thesis
    using sorted_fmsort mset_fmsort by blast
qed

subsection \<open>Quicksort\<close>

lemma mset_rot: "mset (rot G) = mset G"
  by (cases G) (simp_all add: rot_def)

lemma set_rot: "set (rot G) = set G"
  by (metis mset_rot set_mset_mset)

lemma length_rot: "length (rot G) = length G"
  by (metis mset_rot size_mset)

lemma flomuto_props:
  "flomuto pivot S G U = (S', G') \<Longrightarrow>
   mset S' + mset G' = mset S + mset G + mset U
   \<and> ((\<forall>x \<in> set S. x < pivot) \<longrightarrow> (\<forall>x \<in> set S'. x < pivot))
   \<and> ((\<forall>x \<in> set G. pivot \<le> x) \<longrightarrow> (\<forall>x \<in> set G'. pivot \<le> x))"
proof (induction U arbitrary: S G)
  case Nil
  then show ?case by simp
next
  case (Cons u U)
  show ?case
  proof (cases "u < pivot")
    case True
    with Cons.prems have "flomuto pivot (S @ [u]) (rot G) U = (S', G')" by simp
    from Cons.IH [OF this] True show ?thesis
      by (auto simp: mset_rot set_rot)
  next
    case False
    with Cons.prems have "flomuto pivot S (G @ [u]) U = (S', G')" by simp
    from Cons.IH [OF this] False show ?thesis
      by auto
  qed
qed

lemma swap_decomp:
  "swap (X @ a # Y @ b # Z) (int (length X)) (int (length X) + 1 + int (length Y)) =
     Inr (X @ b # Y @ a # Z)"
proof -
  have i2: "nat (int (length X) + 1 + int (length Y)) = length X + Suc (length Y)"
    by (simp add: nat_add_distrib)
  have "(X @ a # Y @ b # Z) ! (length X + Suc (length Y)) = b"
    by (simp add: nth_append)
  moreover have "(X @ b # Y @ b # Z)[length X + Suc (length Y) := a] = X @ b # Y @ a # Z"
    by (simp add: list_update_append)
  ultimately show ?thesis
    by (simp add: swap_def rd_def wr_def i2)
qed

lemma swap_same: "0 \<le> i \<Longrightarrow> i < int (length arr) \<Longrightarrow> swap arr i i = Inr arr"
  by (simp add: swap_def rd_def wr_def)

lemma partition_loop_result:
  "partition_loop (pre @ S @ G @ U @ pivot # post)
     (int (length pre) + int (length S) + int (length G) + int (length U)) pivot
     (int (length pre) + int (length S) - 1) (int (length pre) + int (length S) + int (length G)) =
   Inr (pre @ fst (flomuto pivot S G U) @ snd (flomuto pivot S G U) @ pivot # post,
        int (length pre) + int (length (fst (flomuto pivot S G U))) - 1)"
proof (induction U arbitrary: S G)
  case Nil
  show ?case by (subst partition_loop.simps) simp
next
  case (Cons u U)
  let ?arr = "pre @ S @ G @ (u # U) @ pivot # post"
  let ?high = "int (length pre) + int (length S) + int (length G) + int (length (u # U))"
  let ?i = "int (length pre) + int (length S) - 1"
  let ?j = "int (length pre) + int (length S) + int (length G)"
  have r: "rd ?arr ?j = Inr u"
    by (simp add: rd_def nth_append nat_add_distrib)
  have jh: "?j \<le> ?high - 1" by simp
  show ?case
  proof (cases "u < pivot")
    case False
    from Cons.IH [of S "G @ [u]"]
    have "partition_loop ?arr ?high pivot ?i (?j + 1) =
        Inr (pre @ fst (flomuto pivot S (G @ [u]) U) @ snd (flomuto pivot S (G @ [u]) U) @ pivot # post,
          int (length pre) + int (length (fst (flomuto pivot S (G @ [u]) U))) - 1)"
      by (simp add: add.commute add.left_commute)
    with False r jh show ?thesis
      by (subst partition_loop.simps) simp
  next
    case True
    have sw: "swap ?arr (?i + 1) ?j = Inr (pre @ (S @ [u]) @ rot G @ U @ pivot # post)"
    proof (cases G)
      case Nil
      then show ?thesis
        using swap_same [of "int (length pre) + int (length S)" ?arr]
        by (simp add: rot_def)
    next
      case (Cons g gs)
      from swap_decomp [of "pre @ S" g gs u "U @ pivot # post"] Cons show ?thesis
        by (simp add: rot_def add.commute add.left_commute)
    qed
    from Cons.IH [of "S @ [u]" "rot G"]
    have "partition_loop (pre @ (S @ [u]) @ rot G @ U @ pivot # post) ?high pivot (?i + 1) (?j + 1) =
        Inr (pre @ fst (flomuto pivot (S @ [u]) (rot G) U) @ snd (flomuto pivot (S @ [u]) (rot G) U)
             @ pivot # post,
          int (length pre) + int (length (fst (flomuto pivot (S @ [u]) (rot G) U))) - 1)"
      by (simp add: length_rot add.commute add.left_commute)
    with True r jh sw show ?thesis
      by (subst partition_loop.simps) simp
  qed
qed

lemma partition_result:
  assumes "flomuto pivot [] [] body = (S, G)"
  shows "partition (pre @ body @ pivot # post) (int (length pre))
      (int (length pre) + int (length body)) =
    Inr (pre @ S @ pivot # rot G @ post, int (length pre) + int (length S))"
proof -
  let ?arr = "pre @ body @ pivot # post"
  let ?high = "int (length pre) + int (length body)"
  have r: "rd ?arr ?high = Inr pivot"
    by (simp add: rd_def nth_append nat_add_distrib)
  from partition_loop_result [of pre "[]" "[]" body pivot post] assms
  have loop: "partition_loop ?arr ?high pivot (int (length pre) - 1) (int (length pre)) =
      Inr (pre @ S @ G @ pivot # post, int (length pre) + int (length S) - 1)"
    by simp
  from flomuto_props [OF assms] have "size (mset S + mset G) = size (mset body)" by simp
  then have len: "length S + length G = length body" by simp
  have sw: "swap (pre @ S @ G @ pivot # post) (int (length pre) + int (length S) - 1 + 1) ?high =
      Inr (pre @ S @ pivot # rot G @ post)"
  proof (cases G)
    case Nil
    with len have "length S = length body" by simp
    with Nil show ?thesis
      using swap_same [of "int (length pre) + int (length S)" "pre @ S @ pivot # post"]
      by (simp add: rot_def)
  next
    case (Cons g gs)
    with len have "int (length body) = int (length S) + 1 + int (length gs)" by simp
    with swap_decomp [of "pre @ S" g gs pivot post] Cons show ?thesis
      by (simp add: rot_def add.commute add.left_commute)
  qed
  from r loop sw show ?thesis
    by (simp add: partition_def)
qed


lemma decomp_parts:
  "take (length pre) (pre @ mid @ post) = pre"
  "drop (length pre + length mid) (pre @ mid @ post) = post"
  "slice (pre @ mid @ post) (int (length pre)) (int (length pre) + int (length mid) - 1) = mid"
  by (simp_all add: slice_def)

lemma sorted_short: "length xs \<le> 1 \<Longrightarrow> sorted xs"
  by (cases xs) simp_all

text \<open>
  On a range inside the array \<open>quickSortRecursive\<close> returns, and the range is then
  sorted and a permutation of what it was; the cells around it are the old ones.
\<close>

lemma quickSortRecursive_correct:
  "0 \<le> low \<Longrightarrow> low \<le> high + 1 \<Longrightarrow> high < int (length arr) \<Longrightarrow>
   \<exists>mid. quickSortRecursive arr low high =
       Inr (take (nat low) arr @ mid @ drop (nat (high + 1)) arr)
     \<and> sorted mid \<and> mset mid = mset (slice arr low high)"
proof (induction arr low high rule: quickSortRecursive.induct)
  case (1 arr low high)
  note unfold = quickSortRecursive.simps [of arr low high]
  define pre where "pre = take (nat low) arr"
  define post where "post = drop (nat (high + 1)) arr"
  define mid0 where "mid0 = slice arr low high"
  from slice_decomp [OF "1.prems"]
  have dec: "arr = pre @ mid0 @ post" and lp: "length pre = nat low"
    and lm: "length mid0 = nat (high - low + 1)"
    by (simp_all add: pre_def post_def mid0_def)
  from lp "1.prems" have low: "low = int (length pre)" by simp
  show ?case
  proof (cases "low < high")
    case False
    with lm "1.prems" have "length mid0 \<le> 1" by simp
    then have "sorted mid0" by (rule sorted_short)
    moreover from False unfold dec have "quickSortRecursive arr low high = Inr (pre @ mid0 @ post)"
      by simp
    ultimately show ?thesis
      unfolding pre_def post_def mid0_def by blast
  next
    case True
    show ?thesis
    proof (cases "high - low + 1 < INSERTION_SORT_THRESHOLD")
      case small: True
      with True unfold insertionSort_correct [OF "1.prems"] show ?thesis by simp
    next
      case big: False
      from True lm have "mid0 \<noteq> []" by auto
      then obtain body pivot where mid0: "mid0 = body @ [pivot]"
        by (metis append_butlast_last_id)
      obtain S G where fl: "flomuto pivot [] [] body = (S, G)" by fastforce
      note props = flomuto_props [OF fl]
      from props have "size (mset S + mset G) = size (mset body)" by simp
      then have len: "length S + length G = length body" by simp
      from lm mid0 "1.prems" have high: "high = int (length pre) + int (length body)"
        unfolding low by simp
      define arr1 where "arr1 = pre @ S @ pivot # rot G @ post"
      define p where "p = int (length pre) + int (length S)"
      from partition_result [OF fl, of pre post]
      have part: "partition arr low high = Inr (arr1, p)"
        unfolding dec mid0 low high arr1_def p_def by simp
      have b1: "0 \<le> low" "low \<le> p - 1 + 1" "p - 1 < int (length arr1)"
        unfolding low p_def arr1_def by simp_all
      from "1.IH"(1) [OF True big part refl b1]
      obtain mid1 where left: "quickSortRecursive arr1 low (p - 1) =
          Inr (take (nat low) arr1 @ mid1 @ drop (nat (p - 1 + 1)) arr1)"
        and s1: "sorted mid1" and m1: "mset mid1 = mset (slice arr1 low (p - 1))"
        by blast
      have "slice arr1 low (p - 1) = S"
        using decomp_parts(3) [of pre S "pivot # rot G @ post"]
        unfolding low p_def arr1_def by simp
      with m1 have m1: "mset mid1 = mset S" by simp
      then have l1: "length mid1 = length S" by (metis size_mset)
      have "take (nat low) arr1 = pre"
        unfolding low arr1_def by simp
      moreover have "drop (nat (p - 1 + 1)) arr1 = pivot # rot G @ post"
        using decomp_parts(2) [of pre S "pivot # rot G @ post"]
        unfolding p_def arr1_def by (simp add: nat_add_distrib)
      ultimately have left: "quickSortRecursive arr1 low (p - 1) =
          Inr (pre @ mid1 @ pivot # rot G @ post)"
        using left by simp
      define arr2 where "arr2 = pre @ mid1 @ pivot # rot G @ post"
      have b2: "0 \<le> p + 1" "p + 1 \<le> high + 1" "high < int (length arr2)"
        unfolding p_def high arr2_def using len by (simp_all add: l1 length_rot)
      from "1.IH"(2) [OF True big part refl left [folded arr2_def] b2]
      obtain mid2 where right: "quickSortRecursive arr2 (p + 1) high =
          Inr (take (nat (p + 1)) arr2 @ mid2 @ drop (nat (high + 1)) arr2)"
        and s2: "sorted mid2" and m2: "mset mid2 = mset (slice arr2 (p + 1) high)"
        by blast
      have hi2: "high = int (length (pre @ mid1 @ [pivot])) + int (length (rot G)) - 1"
        unfolding high using len by (simp add: l1 length_rot)
      have p2: "p + 1 = int (length (pre @ mid1 @ [pivot]))"
        unfolding p_def by (simp add: l1)
      have a2: "arr2 = (pre @ mid1 @ [pivot]) @ rot G @ post"
        by (simp add: arr2_def)
      have "slice arr2 (p + 1) high = rot G"
        unfolding a2 p2 hi2 by (rule decomp_parts(3))
      with m2 have m2: "mset mid2 = mset G" by (simp add: mset_rot)
      have n2: "nat (p + 1) = length (pre @ mid1 @ [pivot])"
        "nat (high + 1) = length (pre @ mid1 @ [pivot]) + length (rot G)"
        unfolding p2 hi2 by simp_all
      have "take (nat (p + 1)) arr2 = pre @ mid1 @ [pivot]"
        unfolding a2 n2 by (rule decomp_parts(1))
      moreover have "drop (nat (high + 1)) arr2 = post"
        unfolding a2 n2 by (rule decomp_parts(2))
      ultimately have right: "quickSortRecursive arr2 (p + 1) high =
          Inr (pre @ (mid1 @ pivot # mid2) @ post)"
        using right by simp
      from props m1 m2 have lt: "\<forall>x \<in> set mid1. x < pivot" and ge: "\<forall>x \<in> set mid2. pivot \<le> x"
        by (metis empty_iff empty_set mset_eq_setD)+
      with s1 s2 have "sorted (mid1 @ pivot # mid2)"
        by (fastforce simp: sorted_append)
      moreover from props m1 m2 have "mset (mid1 @ pivot # mid2) = mset mid0"
        by (simp add: mid0)
      moreover from True big part left [folded arr2_def] right unfold
      have "quickSortRecursive arr low high = Inr (pre @ (mid1 @ pivot # mid2) @ post)"
        by simp
      ultimately show ?thesis
        unfolding pre_def post_def mid0_def by blast
    qed
  qed
qed

section \<open>The radix backend\<close>

subsection \<open>One counting pass is a stable sort by one digit\<close>

lemma digit_key_range: "0 \<le> digit_key expn x \<and> digit_key expn x < 10"
  by (simp add: digit_key_def)

lemma c_div_nonneg: "0 \<le> a \<Longrightarrow> 0 < b \<Longrightarrow> c_div a b = Inr (a div b)"
  by (cases "a = 0") (simp_all add: c_div_def INT_MIN_def)

lemma c_mod_nonneg: "0 \<le> a \<Longrightarrow> 0 < b \<Longrightarrow> c_mod a b = Inr (a mod b)"
  by (simp add: c_mod_def c_div_nonneg minus_div_mult_eq_mod)

lemma digit_at_nonneg:
  assumes "0 \<le> i" and "i < int (length arr)" and "0 \<le> arr ! nat i" and "0 < expn"
  shows "digit_at arr i expn = Inr (digit_key expn (arr ! nat i))"
proof -
  from assms(3,4) have "0 \<le> arr ! nat i div expn"
    by (simp add: pos_imp_zdiv_nonneg_iff)
  with assms show ?thesis
    by (simp add: digit_at_def rd_def c_div_nonneg c_mod_nonneg digit_key_def)
qed

lemma drop_take_step:
  assumes "0 \<le> i" and "i < n" and "n \<le> int (length arr)"
  shows "drop (nat i) (take (nat n) arr) = arr ! nat i # drop (nat (i + 1)) (take (nat n) arr)"
proof -
  from assms have "nat i < length (take (nat n) arr)" by simp
  from Cons_nth_drop_Suc [OF this] assms show ?thesis
    by (simp add: nat_add_distrib)
qed

lemma count_digits_result:
  assumes "0 \<le> i" and "n \<le> int (length arr)" and "0 < expn"
    and "\<forall>x \<in> set (take (nat n) arr). 0 \<le> x" and "length cnts = 10"
  shows "\<exists>cnts'. count_digits arr n expn i cnts = Inr cnts' \<and> length cnts' = 10 \<and>
    (\<forall>d < 10. cnts' ! d = cnts ! d +
       int (length (filter (\<lambda>x. digit_key expn x = int d) (drop (nat i) (take (nat n) arr)))))"
  using assms
proof (induction arr n expn i cnts rule: count_digits.induct)
  case (1 arr n expn i cnts)
  note unfold = count_digits.simps [of arr n expn i cnts]
  show ?case
  proof (cases "i < n")
    case False
    then have "drop (nat i) (take (nat n) arr) = []" by simp
    with False unfold "1.prems" show ?thesis by simp
  next
    case True
    define x where "x = arr ! nat i"
    define d where "d = digit_key expn x"
    from True "1.prems" have "nat i < length (take (nat n) arr)" by simp
    then have "take (nat n) arr ! nat i \<in> set (take (nat n) arr)" by (rule nth_mem)
    with True "1.prems" have x0: "0 \<le> x" by (simp add: x_def)
    from True "1.prems" x0 have dig: "digit_at arr i expn = Inr d"
      by (simp add: digit_at_nonneg d_def x_def)
    from digit_key_range [of expn x] have d: "0 \<le> d" "d < 10" by (simp_all add: d_def)
    with "1.prems" have r: "rd cnts d = Inr (cnts ! nat d)"
      and w: "wr cnts d (cnts ! nat d + 1) = Inr (cnts[nat d := cnts ! nat d + 1])"
      by (simp_all add: rd_def wr_def)
    from "1.prems" have len: "length (cnts[nat d := cnts ! nat d + 1]) = 10" by simp
    from "1.prems" have i1: "0 \<le> i + 1" by simp
    from "1.IH" [OF True dig r w i1 "1.prems"(2,3,4) len]
    obtain cnts' where res: "count_digits arr n expn (i + 1) (cnts[nat d := cnts ! nat d + 1]) = Inr cnts'"
      and len': "length cnts' = 10"
      and val: "\<forall>e < 10. cnts' ! e = cnts[nat d := cnts ! nat d + 1] ! e +
         int (length (filter (\<lambda>x. digit_key expn x = int e)
           (drop (nat (i + 1)) (take (nat n) arr))))"
      by blast
    have step: "drop (nat i) (take (nat n) arr) = x # drop (nat (i + 1)) (take (nat n) arr)"
      using drop_take_step [OF "1.prems"(1) True "1.prems"(2)] by (simp add: x_def)
    have "cnts' ! e = cnts ! e +
        int (length (filter (\<lambda>x. digit_key expn x = int e) (drop (nat i) (take (nat n) arr))))"
      if "e < 10" for e
    proof (cases "e = nat d")
      case True
      with val that d "1.prems"(5) show ?thesis
        unfolding step by (simp add: d_def)
    next
      case False
      with d have "digit_key expn x \<noteq> int e" by (auto simp: d_def)
      with val that False show ?thesis
        unfolding step by simp
    qed
    with res len' True dig r w unfold show ?thesis by simp
  qed
qed


lemma length_filter_mono:
  "(\<And>x. x \<in> set xs \<Longrightarrow> P x \<Longrightarrow> Q x) \<Longrightarrow> length (filter P xs) \<le> length (filter Q xs)"
  by (induction xs) auto

lemma length_filter_le_split:
  "length (filter (\<lambda>x. f x \<le> (d::int)) xs) =
     length (filter (\<lambda>x. f x < d) xs) + length (filter (\<lambda>x. f x = d) xs)"
  by (induction xs) auto

lemma length_filter_drop_le: "length (filter P (drop k xs)) \<le> length (filter P xs)"
proof -
  have "length (filter P xs) = length (filter P (take k xs @ drop k xs))" by simp
  also have "\<dots> = length (filter P (take k xs)) + length (filter P (drop k xs))"
    by (simp only: filter_append length_append)
  finally show ?thesis by simp
qed

lemma place_inv_step:
  assumes inv: "place_inv expn xs i output cnts"
    and i: "0 \<le> i" "nat i < length xs"
    and d: "d = digit_key expn (xs ! nat i)"
    and c: "c = cnts ! nat d"
  shows "1 \<le> c \<and> c \<le> int (length xs)
    \<and> place_inv expn xs (i - 1) (output[nat (c - 1) := xs ! nat i]) (cnts[nat d := c - 1])"
proof -
  define x where "x = xs ! nat i"
  define rest where "rest = drop (nat (i + 1)) xs"
  define LE where "LE e = int (length (filter (\<lambda>x. digit_key expn x \<le> e) xs))" for e
  define LT where "LT e = int (length (filter (\<lambda>x. digit_key expn x < e) xs))" for e
  define EQ where "EQ e ys = int (length (filter (\<lambda>x. digit_key expn x = e) ys))" for e ys
  have d10: "0 \<le> d" "d < 10" "nat d < 10"
    using digit_key_range [of expn "xs ! nat i"] by (auto simp: d)
  have suffix: "drop (nat (i - 1 + 1)) xs = x # rest"
    using i Cons_nth_drop_Suc [of "nat i" xs] by (simp add: x_def rest_def nat_add_distrib)
  have whole: "xs = take (nat i) xs @ x # rest"
    using suffix by (metis append_take_drop_id diff_add_cancel)
  have split: "LE e = LT e + EQ e xs" for e
    by (simp add: LE_def LT_def EQ_def length_filter_le_split)
  have EQ_rest: "EQ e rest \<le> EQ e xs" for e
    by (simp add: EQ_def rest_def length_filter_drop_le)
  have EQ_d: "EQ d rest + 1 \<le> EQ d xs"
  proof -
    have "EQ d xs = EQ d (take (nat i) xs @ x # rest)" using whole by simp
    also have "\<dots> = EQ d (take (nat i) xs) + 1 + EQ d rest"
      by (simp add: EQ_def d x_def)
    finally show ?thesis by (simp add: EQ_def)
  qed
  have LE_mono: "LE e \<le> LT e'" if "e < e'" for e e'
    unfolding LE_def LT_def using that by (auto intro!: length_filter_mono)
  have LE_len: "LE e \<le> int (length xs)" for e
    by (simp add: LE_def)
  have LT0: "0 \<le> LT e" for e by (simp add: LT_def)
  note inv' = inv [unfolded place_inv_def, folded rest_def]
  from inv' have len: "length output = length xs" "length cnts = 10"
    by blast+
  have cnt: "cnts ! e = LE (int e) - EQ (int e) rest" if "e < 10" for e
    using inv' that unfolding LE_def EQ_def by blast
  have seg: "output ! (nat (cnts ! e) + t) = filter (\<lambda>x. digit_key expn x = int e) rest ! t"
    if "e < 10" and "t < length (filter (\<lambda>x. digit_key expn x = int e) rest)" for e t
    using inv' that by blast
  from cnt [OF d10(3)] d10 have c_eq: "c = LE d - EQ d rest" by (simp add: c)
  with split [of d] EQ_d LT0 [of d] LE_len [of d] have c1: "LT d + 1 \<le> c" "c \<le> LE d"
    by (simp_all add: EQ_def)
  with LT0 [of d] LE_len [of d] have c_range: "1 \<le> c" "c \<le> int (length xs)" by simp_all
  define output' where "output' = output[nat (c - 1) := x]"
  define cnts' where "cnts' = cnts[nat d := c - 1]"
  have "place_inv expn xs (i - 1) output' cnts'"
    unfolding place_inv_def suffix
  proof (intro conjI allI impI)
    show "length output' = length xs" by (simp add: output'_def len)
    show "length cnts' = 10" by (simp add: cnts'_def len)
  next
    fix e :: nat assume e: "e < 10"
    show "cnts' ! e = int (length (filter (\<lambda>x. digit_key expn x \<le> int e) xs))
        - int (length (filter (\<lambda>x. digit_key expn x = int e) (x # rest)))"
    proof (cases "e = nat d")
      case True
      with d10 c_eq len show ?thesis
        by (simp add: cnts'_def LE_def EQ_def d x_def)
    next
      case False
      with d10 have "digit_key expn x \<noteq> int e" by (auto simp: d x_def)
      with False cnt [OF e] show ?thesis
        by (simp add: cnts'_def LE_def EQ_def)
    qed
  next
    fix e t :: nat assume e: "e < 10"
      and t: "t < length (filter (\<lambda>x. digit_key expn x = int e) (x # rest))"
    show "output' ! (nat (cnts' ! e) + t) = filter (\<lambda>x. digit_key expn x = int e) (x # rest) ! t"
    proof (cases "e = nat d")
      case True
      then have ed: "int e = d" using d10 by simp
      have cd: "cnts' ! e = c - 1" using True d10 len by (simp add: cnts'_def)
      have fx: "filter (\<lambda>x. digit_key expn x = int e) (x # rest) =
          x # filter (\<lambda>x. digit_key expn x = int e) rest"
        by (simp add: ed d x_def)
      show ?thesis
      proof (cases t)
        case 0
        with c_range len show ?thesis
          unfolding cd fx by (simp add: output'_def)
      next
        case (Suc t')
        with t fx have t': "t' < length (filter (\<lambda>x. digit_key expn x = int e) rest)" by simp
        from c_range have idx: "nat (c - 1) + Suc t' = nat (cnts ! e) + t'"
          using True c by simp
        from seg [OF e t'] Suc show ?thesis
          unfolding cd fx idx [symmetric] by (simp add: output'_def)
      qed
    next
      case False
      with d10 have ne: "digit_key expn x \<noteq> int e" by (auto simp: d x_def)
      from False have ce: "cnts' ! e = cnts ! e" by (simp add: cnts'_def)
      from t ne have t': "t < length (filter (\<lambda>x. digit_key expn x = int e) rest)" by simp
      have pos: "nat (cnts ! e) + t \<noteq> nat (c - 1)"
      proof (cases "int e < d")
        case True
        from t' have "int t < EQ (int e) rest" by (simp add: EQ_def)
        with cnt [OF e] have "cnts ! e + int t < LE (int e)" by simp
        also from LE_mono [OF True] have "\<dots> \<le> LT d" .
        finally have "cnts ! e + int t < c - 1" using c1 by simp
        moreover have "0 \<le> cnts ! e"
          using cnt [OF e] split [of "int e"] EQ_rest [of "int e"] LT0 [of "int e"] by simp
        ultimately show ?thesis by linarith
      next
        case ge: False
        with False d10 have "d < int e" by auto
        from LE_mono [OF this] have "LE d \<le> LT (int e)" .
        moreover have "LT (int e) \<le> cnts ! e"
          using cnt [OF e] split [of "int e"] EQ_rest [of "int e"] by simp
        ultimately have "c \<le> cnts ! e" using c1 by simp
        with c_range show ?thesis by linarith
      qed
      with seg [OF e t'] ne show ?thesis
        unfolding ce by (simp add: output'_def)
    qed
  qed
  with c_range show ?thesis
    by (simp add: output'_def cnts'_def x_def)
qed


lemma place_loop_result:
  assumes "- 1 \<le> i" and "i < n" and "n \<le> int (length arr)" and "0 < expn"
    and "\<forall>x \<in> set (take (nat n) arr). 0 \<le> x"
    and "place_inv expn (take (nat n) arr) i output cnts"
  shows "\<exists>output' cnts'. place_loop arr expn i output cnts = Inr (output', cnts') \<and>
    place_inv expn (take (nat n) arr) (- 1) output' cnts'"
  using assms
proof (induction arr expn i "output" cnts rule: place_loop.induct)
  case (1 arr expn i outp cnts)
  note unfold = place_loop.simps [of arr expn i outp cnts]
  let ?xs = "take (nat n) arr"
  show ?case
  proof (cases "i \<ge> 0")
    case False
    with "1.prems"(1) have "i = - 1" by simp
    with unfold "1.prems"(6) show ?thesis by simp
  next
    case True
    define x where "x = arr ! nat i"
    define d where "d = digit_key expn x"
    define c where "c = cnts ! nat d"
    from True "1.prems" have ilen: "nat i < length ?xs" by simp
    with True "1.prems" have xs_i: "?xs ! nat i = x" by (simp add: x_def)
    from ilen have "?xs ! nat i \<in> set ?xs" by (rule nth_mem)
    with "1.prems"(5) xs_i have x0: "0 \<le> x" by auto
    from True "1.prems" x0 have dig: "digit_at arr i expn = Inr d"
      by (simp add: digit_at_nonneg d_def x_def)
    from digit_key_range [of expn x] have d: "0 \<le> d" "d < 10" by (simp_all add: d_def)
    from "1.prems"(6) have len: "length outp = length ?xs" "length cnts = 10"
      by (simp_all add: place_inv_def)
    from place_inv_step [OF "1.prems"(6) True ilen, of d c]
    have c: "1 \<le> c" "c \<le> int (length ?xs)"
      and inv': "place_inv expn ?xs (i - 1) (outp[nat (c - 1) := x]) (cnts[nat d := c - 1])"
      by (simp_all add: d_def c_def xs_i)
    from d len have r: "rd cnts d = Inr c"
      by (simp add: rd_def c_def)
    from True "1.prems" have rx: "rd arr i = Inr x"
      by (simp add: rd_def x_def)
    from c len have w: "wr outp (c - 1) x = Inr (outp[nat (c - 1) := x])"
      by (simp add: wr_def)
    from d len have wc: "wr cnts d (c - 1) = Inr (cnts[nat d := c - 1])"
      by (simp add: wr_def)
    from True "1.prems" have "- 1 \<le> i - 1" "i - 1 < n" by simp_all
    from "1.IH" [OF True dig r rx w wc this "1.prems"(3,4,5) inv']
    show ?thesis
      using True dig r rx w wc unfold by simp
  qed
qed

lemma sorted_key_blocks:
  "sorted (map f ys) \<Longrightarrow>
   ys = filter (\<lambda>x. f x < d) ys @ filter (\<lambda>x. f x = d) ys @ filter (\<lambda>x. d < f x) ys"
  for f :: "'a \<Rightarrow> int"
proof (induction ys)
  case Nil
  show ?case by simp
next
  case (Cons y ys)
  then have ih: "ys = filter (\<lambda>x. f x < d) ys @ filter (\<lambda>x. f x = d) ys @ filter (\<lambda>x. d < f x) ys"
    and ge: "\<forall>x \<in> set ys. f y \<le> f x"
    by simp_all
  consider "f y < d" | "f y = d" | "d < f y" by linarith
  then show ?case
  proof cases
    case 1
    with ih show ?thesis by simp
  next
    case 2
    with ge have "filter (\<lambda>x. f x < d) ys = []" by (auto simp: filter_empty_conv)
    with 2 ih show ?thesis by simp
  next
    case 3
    with ge have "filter (\<lambda>x. f x < d) ys = []" "filter (\<lambda>x. f x = d) ys = []"
      by (auto simp: filter_empty_conv)
    with 3 ih show ?thesis by simp
  qed
qed

lemma length_filter_sort_key: "length (filter P (sort_key f xs)) = length (filter P xs)"
proof -
  have "mset (filter P (sort_key f xs)) = mset (filter P xs)"
    by (simp add: mset_filter)
  then show ?thesis by (metis size_mset)
qed

lemma placed_is_sort_key:
  fixes f :: "int \<Rightarrow> int"
  assumes len: "length out = length xs"
    and range: "\<forall>x \<in> set xs. 0 \<le> f x \<and> f x < 10"
    and seg: "\<forall>d < 10. \<forall>t < length (filter (\<lambda>x. f x = int d) xs).
        out ! (length (filter (\<lambda>x. f x < int d) xs) + t) = filter (\<lambda>x. f x = int d) xs ! t"
  shows "out = sort_key f xs"
proof (rule nth_equalityI)
  show "length out = length (sort_key f xs)" by (simp add: len)
next
  fix p assume "p < length out"
  with len have p: "p < length (sort_key f xs)" by simp
  define ys where "ys = sort_key f xs"
  define d where "d = f (ys ! p)"
  define A where "A = filter (\<lambda>x. f x < d) ys"
  define B where "B = filter (\<lambda>x. f x = d) ys"
  define C where "C = filter (\<lambda>x. d < f x) ys"
  have ys: "ys = A @ B @ C"
    unfolding A_def B_def C_def by (rule sorted_key_blocks) (simp add: ys_def)
  from p have mem: "ys ! p \<in> set xs" by (metis nth_mem set_sort ys_def)
  with range have d10: "0 \<le> d" "d < 10" by (auto simp: d_def)
  have notA: "\<not> p < length A"
  proof
    assume "p < length A"
    then have "ys ! p \<in> set A" by (subst ys) (simp add: nth_append)
    then show False by (simp add: A_def d_def)
  qed
  have notC: "p < length A + length B"
  proof (rule ccontr)
    assume "\<not> p < length A + length B"
    moreover from p have "p < length A + length B + length C"
      by (subst (asm) ys_def [symmetric], subst (asm) ys) simp
    ultimately have idx: "p - length A - length B < length C"
      and "length A + length B \<le> p"
      by simp_all
    have "ys ! p = (A @ B @ C) ! p"
      using ys by simp
    moreover from \<open>length A + length B \<le> p\<close>
    have "\<not> p < length A" "\<not> p - length A < length B" by arith+
    ultimately have "ys ! p = C ! (p - length A - length B)"
      by (simp only: nth_append if_False)
    with idx have "ys ! p \<in> set C" by (metis nth_mem)
    then show False by (simp add: C_def d_def)
  qed
  define t where "t = p - length A"
  from notA notC have t: "t < length B" "p = length A + t" by (simp_all add: t_def)
  then have ysp: "ys ! p = B ! t" by (subst ys) (simp add: nth_append)
  define e where "e = nat d"
  from d10 have e: "int e = d" "e < 10" by (simp_all add: e_def)
  have B: "B = filter (\<lambda>x. f x = int e) xs"
    unfolding e by (simp add: B_def ys_def sort_key_stable)
  have A: "length A = length (filter (\<lambda>x. f x < int e) xs)"
    unfolding e by (simp add: A_def ys_def length_filter_sort_key)
  from t have "t < length (filter (\<lambda>x. f x = int e) xs)" by (simp only: B)
  from seg [rule_format, OF e(2) this]
  have "out ! (length A + t) = B ! t" by (simp only: A B)
  with t ysp show "out ! p = sort_key f xs ! p"
    by (simp add: ys_def)
qed


lemma count_prefix_explicit:
  "count_prefix 1 [c0, c1, c2, c3, c4, c5, c6, c7, c8, c9] =
     Inr [c0, c1 + c0, c2 + (c1 + c0), c3 + (c2 + (c1 + c0)), c4 + (c3 + (c2 + (c1 + c0))),
          c5 + (c4 + (c3 + (c2 + (c1 + c0)))), c6 + (c5 + (c4 + (c3 + (c2 + (c1 + c0))))),
          c7 + (c6 + (c5 + (c4 + (c3 + (c2 + (c1 + c0)))))),
          c8 + (c7 + (c6 + (c5 + (c4 + (c3 + (c2 + (c1 + c0))))))),
          c9 + (c8 + (c7 + (c6 + (c5 + (c4 + (c3 + (c2 + (c1 + c0))))))))]"
  by (simp add: count_prefix.simps rd_def wr_def cong: rbind_weak_cong)

lemma list_of_ten:
  assumes "length l = 10"
  shows "l = [l ! 0, l ! 1, l ! 2, l ! 3, l ! 4, l ! 5, l ! 6, l ! 7, l ! 8, l ! 9]"
proof -
  have "l = map ((!) l) [0..<10]" using map_nth [of l] assms by simp
  also have "[0..<10] = [0, 1, 2, 3, 4, 5, 6, 7, 8, 9::nat]" by (simp add: upt_rec)
  finally show ?thesis by simp
qed

lemma less_ten_cases:
  "d < 10 \<Longrightarrow> d = 0 \<or> d = 1 \<or> d = 2 \<or> d = 3 \<or> d = 4 \<or> d = 5 \<or> d = 6 \<or> d = 7 \<or> d = 8 \<or> d = (9::nat)"
  by arith

lemma count_prefix_result:
  assumes len: "length cnts1 = 10"
    and val: "\<forall>d < 10. cnts1 ! d = int (length (filter (\<lambda>x. digit_key expn x = int d) xs))"
  shows "\<exists>cnts2. count_prefix 1 cnts1 = Inr cnts2 \<and> length cnts2 = 10 \<and>
    (\<forall>d < 10. cnts2 ! d = int (length (filter (\<lambda>x. digit_key expn x \<le> int d) xs)))"
proof -
  define E where "E d = int (length (filter (\<lambda>x. digit_key expn x = int d) xs))" for d :: nat
  define LE where "LE d = int (length (filter (\<lambda>x. digit_key expn x \<le> int d) xs))" for d :: nat
  have L0: "LE 0 = E 0"
  proof -
    have "filter (\<lambda>x. digit_key expn x \<le> int 0) xs = filter (\<lambda>x. digit_key expn x = int 0) xs"
    proof (intro filter_cong refl)
      fix x
      from digit_key_range [of expn x]
      show "(digit_key expn x \<le> int 0) = (digit_key expn x = int 0)" by auto
    qed
    then show ?thesis by (simp only: LE_def E_def)
  qed
  have LS: "LE (Suc d) = E (Suc d) + LE d" for d
  proof -
    have "filter (\<lambda>x. digit_key expn x < int (Suc d)) xs = filter (\<lambda>x. digit_key expn x \<le> int d) xs"
      by (intro filter_cong) auto
    with length_filter_le_split [of "digit_key expn" "int (Suc d)" xs] show ?thesis
      by (simp only: LE_def E_def)
  qed
  have LEs: "LE 1 = E 1 + E 0" "LE 2 = E 2 + LE 1" "LE 3 = E 3 + LE 2" "LE 4 = E 4 + LE 3"
    "LE 5 = E 5 + LE 4" "LE 6 = E 6 + LE 5" "LE 7 = E 7 + LE 6" "LE 8 = E 8 + LE 7"
    "LE 9 = E 9 + LE 8"
    using LS [of 0] LS [of 1] LS [of 2] LS [of 3] LS [of 4] LS [of 5] LS [of 6] LS [of 7] LS [of 8] L0
    by (simp_all add: eval_nat_numeral)
  from val have v: "cnts1 ! d = E d" if "d < 10" for d
    using that by (simp add: E_def)
  have "cnts1 = [E 0, E 1, E 2, E 3, E 4, E 5, E 6, E 7, E 8, E 9]"
    by (subst list_of_ten [OF len]) (simp add: v)
  then have run: "count_prefix 1 cnts1 =
      Inr [LE 0, LE 1, LE 2, LE 3, LE 4, LE 5, LE 6, LE 7, LE 8, LE 9]"
    by (simp only: count_prefix_explicit LEs L0)
  have "[LE 0, LE 1, LE 2, LE 3, LE 4, LE 5, LE 6, LE 7, LE 8, LE 9] ! d = LE d" if "d < 10" for d
    using less_ten_cases [OF that] by auto
  with run show ?thesis
    by (auto simp: LE_def)
qed

lemma copy_back_result:
  assumes "0 \<le> i" and "i \<le> n" and "n \<le> int (length arr)" and "n \<le> int (length out)"
  shows "copy_back arr out n i =
    Inr (take (nat i) arr @ drop (nat i) (take (nat n) out) @ drop (nat n) arr)"
  using assms
proof (induction arr out n i rule: copy_back.induct)
  case (1 arr out n i)
  note unfold = copy_back.simps [of arr out n i]
  show ?case
  proof (cases "i < n")
    case False
    with "1.prems" have "i = n" by simp
    with unfold show ?thesis by simp
  next
    case True
    with "1.prems" have r: "rd out i = Inr (out ! nat i)"
      and w: "wr arr i (out ! nat i) = Inr (arr[nat i := out ! nat i])"
      by (simp_all add: rd_def wr_def)
    from "1.prems" True have b: "0 \<le> i + 1" "i + 1 \<le> n"
      "n \<le> int (length (arr[nat i := out ! nat i]))" by simp_all
    note ih = "1.IH" [OF True r w b "1.prems"(4)]
    from True "1.prems" have suc: "nat (i + 1) = Suc (nat i)" by simp
    from True "1.prems" have "nat i < length arr" by simp
    then have t: "take (Suc (nat i)) (arr[nat i := out ! nat i]) = take (nat i) arr @ [out ! nat i]"
      by (simp add: take_Suc_conv_app_nth)
    from True "1.prems" have d: "drop (nat n) (arr[nat i := out ! nat i]) = drop (nat n) arr"
      by simp
    from drop_take_step [OF "1.prems"(1) True "1.prems"(4)]
    have o: "drop (nat i) (take (nat n) out) = out ! nat i # drop (Suc (nat i)) (take (nat n) out)"
      by (simp add: suc)
    from True r w ih show ?thesis
      unfolding unfold suc t d o by simp
  qed
qed


lemma place_inv_initial:
  assumes "0 \<le> n" and "n \<le> int (length arr)" and "length cnts = 10"
    and "\<forall>d < 10. cnts ! d =
      int (length (filter (\<lambda>x. digit_key expn x \<le> int d) (take (nat n) arr)))"
  shows "place_inv expn (take (nat n) arr) (n - 1) (replicate (nat n) 0) cnts"
proof -
  from assms(1,2) have "drop (nat (n - 1 + 1)) (take (nat n) arr) = []" by simp
  with assms show ?thesis
    unfolding place_inv_def by simp
qed

lemma place_inv_final:
  assumes "place_inv expn xs (- 1) out cnts"
  shows "out = sort_key (digit_key expn) xs"
proof (rule placed_is_sort_key)
  from assms show "length out = length xs" by (simp add: place_inv_def)
  show "\<forall>x \<in> set xs. 0 \<le> digit_key expn x \<and> digit_key expn x < 10"
    by (simp add: digit_key_range)
  show "\<forall>d < 10. \<forall>t < length (filter (\<lambda>x. digit_key expn x = int d) xs).
      out ! (length (filter (\<lambda>x. digit_key expn x < int d) xs) + t) =
      filter (\<lambda>x. digit_key expn x = int d) xs ! t"
  proof (intro allI impI)
    fix d t :: nat
    assume d: "d < 10" and t: "t < length (filter (\<lambda>x. digit_key expn x = int d) xs)"
    note inv = assms [unfolded place_inv_def, simplified]
    from inv d have c: "cnts ! d = int (length (filter (\<lambda>x. digit_key expn x \<le> int d) xs))
        - int (length (filter (\<lambda>x. digit_key expn x = int d) xs))"
      and seg: "\<forall>t < length (filter (\<lambda>x. digit_key expn x = int d) xs).
        out ! (nat (cnts ! d) + t) = filter (\<lambda>x. digit_key expn x = int d) xs ! t"
      by blast+
    from c length_filter_le_split [of "digit_key expn" "int d" xs]
    have "nat (cnts ! d) = length (filter (\<lambda>x. digit_key expn x < int d) xs)" by simp
    with seg t show "out ! (length (filter (\<lambda>x. digit_key expn x < int d) xs) + t) =
        filter (\<lambda>x. digit_key expn x = int d) xs ! t"
      by simp
  qed
qed

lemma countingSortForRadix_stable:
  assumes n: "0 \<le> n" "n \<le> int (length arr)" and e: "0 < expn"
    and nonneg: "\<forall>x \<in> set (take (nat n) arr). 0 \<le> x"
  shows "countingSortForRadix arr n expn =
    Inr (sort_key (digit_key expn) (take (nat n) arr) @ drop (nat n) arr)"
proof -
  let ?xs = "take (nat n) arr"
  from count_digits_result [of 0 n arr expn "replicate 10 0"] n e nonneg
  obtain cnts1 where s1: "count_digits arr n expn 0 (replicate 10 0) = Inr cnts1"
    and len1: "length cnts1 = 10"
    and val1: "\<forall>d < 10. cnts1 ! d = int (length (filter (\<lambda>x. digit_key expn x = int d) ?xs))"
    by auto
  from count_prefix_result [OF len1 val1]
  obtain cnts2 where s2: "count_prefix 1 cnts1 = Inr cnts2"
    and len2: "length cnts2 = 10"
    and val2: "\<forall>d < 10. cnts2 ! d = int (length (filter (\<lambda>x. digit_key expn x \<le> int d) ?xs))"
    by auto
  from place_inv_initial [OF n len2 val2]
  have inv: "place_inv expn ?xs (n - 1) (replicate (nat n) 0) cnts2" .
  from place_loop_result [of "n - 1" n arr expn "replicate (nat n) 0" cnts2] n e nonneg inv
  obtain out cnts3 where s3: "place_loop arr expn (n - 1) (replicate (nat n) 0) cnts2 = Inr (out, cnts3)"
    and fin: "place_inv expn ?xs (- 1) out cnts3"
    by auto
  from place_inv_final [OF fin] have out: "out = sort_key (digit_key expn) ?xs" .
  then have lout: "length out = nat n" using n by simp
  from copy_back_result [of 0 n arr out] n lout
  have s4: "copy_back arr out n 0 = Inr (out @ drop (nat n) arr)" by simp
  from n have "malloc_ints n = Some (replicate (nat n) 0)" by (simp add: malloc_ints_def)
  with s1 s2 s3 s4 out show ?thesis
    by (simp add: countingSortForRadix_def)
qed

subsection \<open>The loop over the digit positions\<close>

lemma power_ten_le_iff_digits:
  "1 \<le> m \<Longrightarrow> (10 ^ k \<le> m \<longleftrightarrow> k < decimal_digits m)"
proof (induction m arbitrary: k rule: decimal_digits.induct)
  case (1 m)
  note unfold = decimal_digits.simps [of m]
  show ?case
  proof (cases "m < 10")
    case True
    show ?thesis
    proof (cases k)
      case 0
      with True "1.prems" unfold show ?thesis by simp
    next
      case (Suc k')
      have "(10::int) \<le> 10 * 10 ^ k'" by simp
      with True have "\<not> 10 * 10 ^ k' \<le> m" by linarith
      with True Suc unfold show ?thesis by simp
    qed
  next
    case False
    then have m10: "1 \<le> m div 10" by simp
    show ?thesis
    proof (cases k)
      case 0
      with False unfold show ?thesis by simp
    next
      case (Suc k')
      have "(10 * a \<le> m) = (a \<le> m div 10)" for a :: int
        by presburger
      then have "(10 * 10 ^ k' \<le> m) = (10 ^ k' \<le> m div 10)" .
      with "1.IH" [OF False m10, of k'] False Suc unfold show ?thesis by simp
    qed
  qed
qed

lemma getMax_loop_result:
  assumes "0 \<le> i" and "n \<le> int (length arr)"
  shows "getMax_loop arr n i mx = Inr (Max (insert mx (set (drop (nat i) (take (nat n) arr)))))"
  using assms
proof (induction arr n i mx rule: getMax_loop.induct)
  case (1 arr n i mx)
  note unfold = getMax_loop.simps [of arr n i mx]
  show ?case
  proof (cases "i < n")
    case False
    then have "drop (nat i) (take (nat n) arr) = []" by simp
    with False unfold show ?thesis by simp
  next
    case True
    define v where "v = arr ! nat i"
    from True "1.prems" have r: "rd arr i = Inr v" by (simp add: rd_def v_def)
    from "1.prems" have i1: "0 \<le> i + 1" by simp
    have step: "drop (nat i) (take (nat n) arr) = v # drop (nat (i + 1)) (take (nat n) arr)"
      using drop_take_step [OF "1.prems"(1) True "1.prems"(2)] by (simp add: v_def)
    have "Max (insert (if v > mx then v else mx) S) = Max (insert mx (insert v S))"
      if "finite S" for S :: "int set"
      using that by (cases "S = {}") (auto simp: max_def)
    with "1.IH" [OF True r i1 "1.prems"(2)] True r unfold show ?thesis
      unfolding step by simp
  qed
qed

lemma getMax_result:
  assumes "1 \<le> n" and "n \<le> int (length arr)"
  shows "getMax arr n = Inr (Max (set (take (nat n) arr)))"
proof -
  from assms have r: "rd arr 0 = Inr (arr ! 0)" by (cases arr) (simp_all add: rd_def)
  from drop_take_step [of 0 n arr] assms
  have "take (nat n) arr = arr ! 0 # drop (nat 1) (take (nat n) arr)" by simp
  then have "set (take (nat n) arr) = insert (arr ! 0) (set (drop (nat 1) (take (nat n) arr)))"
    by (metis list.simps(15))
  with getMax_loop_result [of 1 n arr "arr ! 0"] assms r show ?thesis
    by (simp add: getMax_def)
qed


lemma insort_key_lex:
  "sorted_wrt (lex_key f g) ys \<Longrightarrow> \<forall>y \<in> set ys. g x \<le> g y \<Longrightarrow>
   sorted_wrt (lex_key f g) (insort_key f x ys)"
proof (induction ys)
  case Nil
  show ?case by simp
next
  case (Cons y ys)
  show ?case
  proof (cases "f x \<le> f y")
    case True
    have "lex_key f g x z" if "z \<in> set (y # ys)" for z
    proof -
      from that Cons.prems(1) have "f y \<le> f z" by (auto simp: lex_key_def)
      with True that Cons.prems(2) show ?thesis by (auto simp: lex_key_def)
    qed
    with True Cons.prems(1) show ?thesis by simp
  next
    case False
    then have "lex_key f g y x" by (simp add: lex_key_def)
    with False Cons show ?thesis by (auto simp: set_insort_key)
  qed
qed

lemma sort_key_lex:
  "sorted (map g xs) \<Longrightarrow> sorted_wrt (lex_key f g) (sort_key f xs)"
proof (induction xs)
  case Nil
  show ?case by simp
next
  case (Cons x xs)
  then have "sorted_wrt (lex_key f g) (sort_key f xs)" and "\<forall>y \<in> set (sort_key f xs). g x \<le> g y"
    by simp_all
  then show ?case by (simp add: insort_key_lex)
qed

lemma radix_step_sorted:
  assumes "0 < e" and "sorted (map (\<lambda>x. x mod e) xs)"
  shows "sorted (map (\<lambda>x. x mod (e * 10)) (sort_key (digit_key e) xs))"
proof -
  have key: "x mod (e * 10) = e * digit_key e x + x mod e" for x
    by (simp add: digit_key_def zmod_zmult2_eq)
  have "x mod (e * 10) \<le> y mod (e * 10)" if "lex_key (digit_key e) (\<lambda>x. x mod e) x y" for x y
  proof (cases "digit_key e x < digit_key e y")
    case True
    then have "digit_key e x + 1 \<le> digit_key e y" by simp
    with assms(1) have "e * (digit_key e x + 1) \<le> e * digit_key e y"
      by (simp only: mult_le_cancel_left_pos)
    moreover from assms(1) have "x mod e < e" "0 \<le> y mod e" by simp_all
    ultimately show ?thesis
      unfolding key by (simp add: algebra_simps)
  next
    case False
    with that show ?thesis
      unfolding key by (simp add: lex_key_def)
  qed
  with sort_key_lex [OF assms(2), of "digit_key e"]
  have "sorted_wrt (\<lambda>x y. x mod (e * 10) \<le> y mod (e * 10)) (sort_key (digit_key e) xs)"
    by (rule sorted_wrt_mono_rel [rotated]) simp
  then show ?thesis by (simp add: sorted_map)
qed

lemma radix_loop_result:
  assumes "expn = 10 ^ k" and "0 \<le> n" and "n \<le> int (length arr)"
    and "\<forall>x \<in> set (take (nat n) arr). 0 \<le> x \<and> x \<le> m" and "0 \<le> m" and "m < 1000000000"
    and "sorted (map (\<lambda>x. x mod expn) (take (nat n) arr))"
  shows "\<exists>arr' passes. radix_loop arr n m expn = Inr (arr', passes)
    \<and> passes = map (\<lambda>j. 10 ^ j) [k ..< (if m = 0 then 0 else decimal_digits m)]
    \<and> take (nat n) arr' = stable_passes (take (nat n) arr) passes
    \<and> drop (nat n) arr' = drop (nat n) arr \<and> length arr' = length arr
    \<and> sorted (take (nat n) arr')"
  using assms
proof (induction arr n m expn arbitrary: k rule: radix_loop.induct)
  case (1 arr n m expn)
  note unfold = radix_loop.simps [of arr n m expn]
  let ?xs = "take (nat n) arr"
  from "1.prems"(1) have e0: "0 < expn" by simp
  with "1.prems"(5) have q: "c_div m expn = Inr (m div expn)" by (simp add: c_div_nonneg)
  show ?case
  proof (cases "m div expn > 0")
    case False
    with e0 have small: "m < expn" by (simp add: pos_imp_zdiv_pos_iff)
    have "map (\<lambda>x. x mod expn) ?xs = ?xs"
    proof (rule map_idI)
      fix x assume "x \<in> set ?xs"
      with "1.prems"(4) small have "0 \<le> x" "x < expn" by auto
      then show "x mod expn = x" by (rule mod_pos_pos_trivial)
    qed
    with "1.prems"(7) have srt: "sorted ?xs" by simp
    have "[k ..< (if m = 0 then 0 else decimal_digits m)] = []"
    proof (cases "m = 0")
      case True
      then show ?thesis by simp
    next
      case m: False
      with "1.prems"(5) have "1 \<le> m" by simp
      from power_ten_le_iff_digits [OF this, of k] small "1.prems"(1)
      show ?thesis using m by simp
    qed
    with False q unfold srt show ?thesis by (simp add: stable_passes_def)
  next
    case True
    with e0 have le: "expn \<le> m" by (simp add: pos_imp_zdiv_pos_iff)
    with e0 "1.prems"(5) have m1: "1 \<le> m" "m \<noteq> 0" by simp_all
    from "1.prems"(4) have nonneg: "\<forall>x \<in> set ?xs. 0 \<le> x" by simp
    note pass = countingSortForRadix_stable [OF "1.prems"(2,3) e0 nonneg]
    define arr1 where "arr1 = sort_key (digit_key expn) ?xs @ drop (nat n) arr"
    from "1.prems"(2,3) have take1: "take (nat n) arr1 = sort_key (digit_key expn) ?xs"
      and drop1: "drop (nat n) arr1 = drop (nat n) arr"
      and len1: "length arr1 = length arr"
      by (simp_all add: arr1_def)
    from le "1.prems"(1,6) have "(10::int) ^ k < 10 ^ 9" by simp
    then have "k < 9" by (simp only: power_strict_increasing_iff)
    then have "Suc k \<le> 9" by simp
    then have "(10::int) ^ Suc k \<le> 10 ^ 9" by (intro power_increasing) simp_all
    with "1.prems"(1) have "expn * 10 \<le> 1000000000" by simp
    moreover from e0 have "0 < expn * 10" by simp
    ultimately have mul: "c_mul expn 10 = Inr (expn * 10)"
      by (simp add: c_mul_def INT_MIN_def INT_MAX_def)
    have e': "expn * 10 = 10 ^ Suc k" using "1.prems"(1) by simp
    from "1.prems"(3) len1 have n1: "n \<le> int (length arr1)" by simp
    have bound1: "\<forall>x \<in> set (take (nat n) arr1). 0 \<le> x \<and> x \<le> m"
      using "1.prems"(4) by (simp add: take1)
    have sorted1: "sorted (map (\<lambda>x. x mod (expn * 10)) (take (nat n) arr1))"
      unfolding take1 by (rule radix_step_sorted [OF e0 "1.prems"(7)])
    from "1.IH" [OF q True pass [folded arr1_def] mul e' "1.prems"(2) n1 bound1 "1.prems"(5,6) sorted1]
    obtain arr' passes where run: "radix_loop arr1 n m (expn * 10) = Inr (arr', passes)"
      and passes: "passes = map (\<lambda>j. 10 ^ j) [Suc k ..< (if m = 0 then 0 else decimal_digits m)]"
      and res: "take (nat n) arr' = stable_passes (take (nat n) arr1) passes"
        "drop (nat n) arr' = drop (nat n) arr1" "length arr' = length arr1"
        "sorted (take (nat n) arr')"
      by blast
    from power_ten_le_iff_digits [OF m1(1), of k] le "1.prems"(1)
    have "k < decimal_digits m" by simp
    then have upt: "[k ..< (if m = 0 then 0 else decimal_digits m)] =
        k # [Suc k ..< (if m = 0 then 0 else decimal_digits m)]"
      using m1 by (simp add: upt_conv_Cons)
    have "radix_loop arr n m expn = Inr (arr', expn # passes)"
      using True q pass [folded arr1_def] mul run unfold by simp
    moreover have "expn # passes = map (\<lambda>j. 10 ^ j) [k ..< (if m = 0 then 0 else decimal_digits m)]"
      unfolding upt using passes "1.prems"(1) by simp
    moreover have "take (nat n) arr' = stable_passes ?xs (expn # passes)"
      using res(1) by (simp add: take1 stable_passes_def)
    ultimately show ?thesis
      using res drop1 len1 by simp
  qed
qed


lemma mset_stable_passes: "mset (stable_passes xs passes) = mset xs"
  unfolding stable_passes_def by (induction passes arbitrary: xs) simp_all

lemma radixSort_traced_result:
  assumes "1 \<le> n" and "n \<le> int (length arr)"
    and "\<forall>x \<in> set (take (nat n) arr). 0 \<le> x \<and> x < 1000000000"
  shows "\<exists>arr' passes.
      radixSort_traced arr n = Inr (arr', passes)
    \<and> passes = map (\<lambda>j. 10 ^ j)
        [0 ..< (if Max (set (take (nat n) arr)) = 0 then 0
                else decimal_digits (Max (set (take (nat n) arr))))]
    \<and> take (nat n) arr' = stable_passes (take (nat n) arr) passes
    \<and> drop (nat n) arr' = drop (nat n) arr \<and> length arr' = length arr
    \<and> sorted (take (nat n) arr')"
proof -
  let ?xs = "take (nat n) arr"
  define m where "m = Max (set ?xs)"
  from assms(1,2) have ne: "?xs \<noteq> []" by auto
  then have "m \<in> set ?xs" unfolding m_def by (intro Max_in) simp_all
  with assms(3) have m: "0 \<le> m" "m < 1000000000" by auto
  have bound: "\<forall>x \<in> set ?xs. 0 \<le> x \<and> x \<le> m"
    using assms(3) by (simp add: m_def)
  from assms(1) have n0: "0 \<le> n" by simp
  from getMax_result [OF assms(1,2)] have gm: "getMax arr n = Inr m" by (simp add: m_def)
  have s0: "sorted (map (\<lambda>x. x mod 1) ?xs)" by (simp add: sorted_map)
  have "(1::int) = 10 ^ 0" by simp
  from radix_loop_result [OF this n0 assms(2) bound m s0]
  obtain arr' passes where run: "radix_loop arr n m 1 = Inr (arr', passes)"
    and rest: "passes = map (\<lambda>j. 10 ^ j) [0 ..< (if m = 0 then 0 else decimal_digits m)]"
      "take (nat n) arr' = stable_passes ?xs passes"
      "drop (nat n) arr' = drop (nat n) arr" "length arr' = length arr"
      "sorted (take (nat n) arr')"
    by blast
  from gm run have "radixSort_traced arr n = Inr (arr', passes)"
    by (simp add: radixSort_traced_def)
  with rest show ?thesis
    unfolding m_def by blast
qed

text \<open>
  What the radix backend does achieve. The model's allocator never fails, so this is a
  statement about runs in which every \<open>malloc\<close> succeeds. For a range of at least one
  element, inside the array, whose values are all non-negative and below \<open>10\<^sup>9\<close>,
  \<open>radixSort\<close> returns; the range is then non-decreasing and a permutation of the
  original range, and the cells after it are untouched. The passes have
  \<open>exp = 1, 10, 100, \<dots>\<close>; there are as many as the maximum has decimal digits when
  the maximum is positive, and none when it is 0. The result is what stable sorts by
  the successive digits give, and every pass with one of these \<open>exp\<close> is, on any
  range of non-negative values, the stable sort by that digit.
\<close>

lemma radixSort_sorts_nonnegative_below_1e9:
  assumes "1 \<le> n" and "n \<le> int (length arr)"
    and "\<forall>x \<in> set (take (nat n) arr). 0 \<le> x \<and> x < 1000000000"
  shows "\<exists>arr' passes.
      radixSort_traced arr n = Inr (arr', passes) \<and> radixSort arr n = Inr arr'
    \<and> sorted (take (nat n) arr')
    \<and> mset (take (nat n) arr') = mset (take (nat n) arr)
    \<and> drop (nat n) arr' = drop (nat n) arr \<and> length arr' = length arr
    \<and> take (nat n) arr' = stable_passes (take (nat n) arr) passes
    \<and> passes = map (\<lambda>j. 10 ^ j) [0 ..< length passes]
    \<and> length passes =
        (if Max (set (take (nat n) arr)) = 0 then 0
         else decimal_digits (Max (set (take (nat n) arr))))
    \<and> (\<forall>e \<in> set passes. \<forall>a. n \<le> int (length a) \<longrightarrow> (\<forall>x \<in> set (take (nat n) a). 0 \<le> x) \<longrightarrow>
          countingSortForRadix a n e =
            Inr (sort_key (digit_key e) (take (nat n) a) @ drop (nat n) a))"
proof -
  let ?xs = "take (nat n) arr"
  from radixSort_traced_result [OF assms]
  obtain arr' passes where run: "radixSort_traced arr n = Inr (arr', passes)"
    and passes: "passes = map (\<lambda>j. 10 ^ j)
        [0 ..< (if Max (set ?xs) = 0 then 0 else decimal_digits (Max (set ?xs)))]"
    and res: "take (nat n) arr' = stable_passes ?xs passes"
      "drop (nat n) arr' = drop (nat n) arr" "length arr' = length arr"
      "sorted (take (nat n) arr')"
    by blast
  from assms(1) have n0: "0 \<le> n" by simp
  from passes have len: "length passes =
      (if Max (set ?xs) = 0 then 0 else decimal_digits (Max (set ?xs)))" by simp
  with passes have shape: "passes = map (\<lambda>j. 10 ^ j) [0 ..< length passes]" by simp
  have each: "countingSortForRadix a n e =
      Inr (sort_key (digit_key e) (take (nat n) a) @ drop (nat n) a)"
    if "e \<in> set passes" and "n \<le> int (length a)" and "\<forall>x \<in> set (take (nat n) a). 0 \<le> x"
    for e a
  proof -
    from that(1) passes have "0 < e" by auto
    from countingSortForRadix_stable [OF n0 that(2) this that(3)] show ?thesis .
  qed
  from run have "radixSort arr n = Inr arr'"
    by (simp add: radixSort_def)
  moreover from res(1) have "mset (take (nat n) arr') = mset ?xs"
    by (simp add: mset_stable_passes)
  ultimately show ?thesis
    using run res shape len each by blast
qed

lemma radixSort_sorts_nonnegative_below_1e9_example:
  "\<exists>arr' passes. radixSort_traced [170, 45, 75, 90, 802, 24, 2, 66] 8 = Inr (arr', passes)
      \<and> sorted (take (nat 8) arr')
      \<and> mset (take (nat 8) arr') = mset (take (nat 8) [170, 45, 75, 90, 802, 24, 2, 66])
      \<and> passes = map (\<lambda>j. 10 ^ j) [0 ..< length passes]"
proof -
  have h1: "1 \<le> (8::int)" by simp
  have h2: "8 \<le> int (length [170, 45, 75, 90, 802, 24, 2, 66 :: int])" by simp
  have h3: "\<forall>x \<in> set (take (nat 8) [170, 45, 75, 90, 802, 24, 2, 66 :: int]).
      0 \<le> x \<and> x < 1000000000" by simp
  from radixSort_sorts_nonnegative_below_1e9 [OF h1 h2 h3] show ?thesis
    by blast
qed

text \<open>
  On a range of zeros the loop condition \<open>m / exp > 0\<close> is false at once: the range is
  returned as it is, without a pass.
\<close>

lemma radixSort_zero_maximum_makes_no_pass:
  "radixSort_traced [0, 0, 0] 3 = Inr ([0, 0, 0], [])"
  by (simp add: run_simps cong: rbind_weak_cong)

text \<open>
  From \<open>10\<^sup>9\<close> on the update \<open>exp *= 10\<close> overflows after the tenth pass.
\<close>

lemma radixSort_overflow_example:
  "radixSort_traced [1000000000, 7] 2 = Inl SignedOverflow"
  by (simp add: run_simps cong: rbind_weak_cong)

lemma radix_loop_overflows:
  assumes "expn = 10 ^ k" and "k \<le> 9" and "0 \<le> n" and "n \<le> int (length arr)"
    and "\<forall>x \<in> set (take (nat n) arr). 0 \<le> x" and "1000000000 \<le> m"
  shows "radix_loop arr n m expn = Inl SignedOverflow"
  using assms
proof (induction arr n m expn arbitrary: k rule: radix_loop.induct)
  case (1 arr n m expn)
  note unfold = radix_loop.simps [of arr n m expn]
  from "1.prems"(1) have e0: "0 < expn" by simp
  from "1.prems"(2) have "(10::int) ^ k \<le> 10 ^ 9" by (intro power_increasing) simp_all
  with "1.prems"(1,6) have le: "expn \<le> m" by simp
  with e0 have m0: "0 \<le> m" by simp
  with e0 have q: "c_div m expn = Inr (m div expn)" by (simp add: c_div_nonneg)
  from e0 le have pos: "m div expn > 0" by (simp add: pos_imp_zdiv_pos_iff)
  note pass = countingSortForRadix_stable [OF "1.prems"(3,4) e0 "1.prems"(5)]
  define arr1 where "arr1 = sort_key (digit_key expn) (take (nat n) arr) @ drop (nat n) arr"
  show ?case
  proof (cases "k = 9")
    case True
    with "1.prems"(1) have "c_mul expn 10 = Inl SignedOverflow"
      by (simp add: c_mul_def INT_MAX_def INT_MIN_def)
    with q pos pass unfold show ?thesis by simp
  next
    case False
    with "1.prems"(2) have k: "Suc k \<le> 9" by simp
    then have "(10::int) ^ Suc k \<le> 10 ^ 9" by (intro power_increasing) simp_all
    with "1.prems"(1) have "expn * 10 \<le> 1000000000" by simp
    moreover from e0 have "0 < expn * 10" by simp
    ultimately have mul: "c_mul expn 10 = Inr (expn * 10)"
      by (simp add: c_mul_def INT_MIN_def INT_MAX_def)
    have e': "expn * 10 = 10 ^ Suc k" using "1.prems"(1) by simp
    from "1.prems"(3,4) have take1: "take (nat n) arr1 = sort_key (digit_key expn) (take (nat n) arr)"
      and len1: "length arr1 = length arr"
      by (simp_all add: arr1_def)
    from "1.prems"(4) len1 have n1: "n \<le> int (length arr1)" by simp
    from "1.prems"(5) have nn1: "\<forall>x \<in> set (take (nat n) arr1). 0 \<le> x" by (simp add: take1)
    from "1.IH" [OF q pos pass [folded arr1_def] mul e' k "1.prems"(3) n1 nn1 "1.prems"(6)]
    have "radix_loop arr1 n m (expn * 10) = Inl SignedOverflow" .
    with q pos pass [folded arr1_def] mul unfold show ?thesis by simp
  qed
qed

text \<open>
  The extent of the overflow: every range of at least one non-negative value whose
  maximum is \<open>10\<^sup>9\<close> or more ends in it, whatever the other values are.
\<close>

lemma radixSort_overflows_from_1e9:
  assumes "1 \<le> n" and "n \<le> int (length arr)"
    and "\<forall>x \<in> set (take (nat n) arr). 0 \<le> x"
    and "1000000000 \<le> Max (set (take (nat n) arr))"
  shows "radixSort_traced arr n = Inl SignedOverflow" and "radixSort arr n = Inl SignedOverflow"
proof -
  from getMax_result [OF assms(1,2)]
  have gm: "getMax arr n = Inr (Max (set (take (nat n) arr)))" .
  have "(1::int) = 10 ^ 0" by simp
  from radix_loop_overflows [OF this _ _ assms(2,3,4)] assms(1)
  have "radix_loop arr n (Max (set (take (nat n) arr))) 1 = Inl SignedOverflow" by simp
  with gm show "radixSort_traced arr n = Inl SignedOverflow"
    by (simp add: radixSort_traced_def)
  then show "radixSort arr n = Inl SignedOverflow"
    by (simp add: radixSort_def)
qed

text \<open>
  Claim C6. The claim promises, for every range of non-negative values, that
  \<open>radixSort\<close> leaves the range sorted and permuted after as many stable counting
  passes as the maximum has decimal digits. The range \<open>{2000000000, 7}\<close> holds two
  non-negative \<open>int\<close> values and its maximum has ten digits. After the tenth pass
  \<open>exp\<close> is \<open>10\<^sup>9\<close>, the loop condition \<open>m / exp > 0\<close> was true (the quotient is 2), and
  the update \<open>exp *= 10\<close> leaves the range of \<open>int\<close>: the call runs into undefined
  behaviour instead of returning. Quotient and product depend on the maximum and on
  \<open>exp\<close> alone, not on what the passes or the allocator did.
\<close>

theorem radixSort_overflows_on_ten_digit_maximum:
  "list_all (\<lambda>x. 0 \<le> x \<and> x \<le> INT_MAX) [2000000000, 7]
   \<and> getMax [2000000000, 7] 2 = Inr 2000000000
   \<and> decimal_digits 2000000000 = 10
   \<and> c_div 2000000000 1000000000 = Inr 2
   \<and> c_mul 1000000000 10 = Inl SignedOverflow
   \<and> radixSort_traced [2000000000, 7] 2 = Inl SignedOverflow
   \<and> radixSort [2000000000, 7] 2 = Inl SignedOverflow"
  by (simp add: run_simps decimal_digits.simps cong: rbind_weak_cong)

section \<open>The dispatcher\<close>

text \<open>
  Claim C4. The dispatcher of the program is the dispatcher of the specification: a
  no-op for \<open>n \<le> 1\<close>, the insertion backend alone for \<open>1 < n < 32\<close>, and for
  \<open>n \<ge> 32\<close> the backend that matches the strategy returned by the analysis engine,
  over the full range. At \<open>n = 31\<close> the result is that of \<open>insertionSort\<close> whatever
  the analysis would say or fail with; at \<open>n = 32\<close> the analysis is consulted.
\<close>

theorem adaptiveHybridSort_dispatch:
  "adaptiveHybridSort qsort S n = dispatcher_spec qsort S n
   \<and> adaptiveHybridSort qsort S 0 = Inr S
   \<and> adaptiveHybridSort qsort S 1 = Inr S
   \<and> adaptiveHybridSort qsort S 31 = insertionSort S 0 30
   \<and> adaptiveHybridSort qsort S 32 =
       rbind (analyzeData qsort S 32) (\<lambda>strategy. backend_of strategy S 32)"
  by (simp add: adaptiveHybridSort_def dispatcher_spec_def INSERTION_SORT_THRESHOLD_def
      backend_of_def)

section \<open>Where the dispatcher sorts\<close>

lemma full_range_result:
  assumes "0 \<le> n" and "n \<le> int (length arr)"
    and "run = Inr (take (nat 0) arr @ mid @ drop (nat (n - 1 + 1)) arr)"
    and "sorted mid" and "mset mid = mset (slice arr 0 (n - 1))"
  shows "\<exists>arr'. run = Inr arr' \<and> sorted (take (nat n) arr')
    \<and> mset (take (nat n) arr') = mset (take (nat n) arr)
    \<and> drop (nat n) arr' = drop (nat n) arr"
proof -
  have sl: "slice arr 0 (n - 1) = take (nat n) arr" by (simp add: slice_def)
  with assms(5) have "size (mset mid) = size (mset (take (nat n) arr))" by simp
  with assms(1,2) have len: "length mid = nat n" by simp
  from assms(3) have "run = Inr (mid @ drop (nat n) arr)" by simp
  moreover from len have "take (nat n) (mid @ drop (nat n) arr) = mid"
    "drop (nat n) (mid @ drop (nat n) arr) = drop (nat n) arr" by simp_all
  ultimately show ?thesis
    using assms(4,5) sl by simp
qed

text \<open>
  Where the dispatcher does sort, in runs in which every \<open>malloc\<close> succeeds (as the
  model's allocator does): whenever the array holds \<open>n\<close> cells, the analysis, if it is
  run, returns a strategy, and the radix backend, if it is the one chosen, gets only
  values from 0 to below \<open>10\<^sup>9\<close>, the call returns with the first \<open>n\<close> cells sorted
  and permuted and the others untouched.
\<close>

lemma adaptiveHybridSort_sorts_when_radix_is_safe:
  assumes bound: "n \<le> int (length arr)"
    and ana: "n < INSERTION_SORT_THRESHOLD \<or> analyzeData qsort arr n = Inr strategy"
    and safe: "INSERTION_SORT_THRESHOLD \<le> n \<Longrightarrow> strategy = STRATEGY_RADIXSORT \<Longrightarrow>
      \<forall>x \<in> set (take (nat n) arr). 0 \<le> x \<and> x < 1000000000"
  shows "\<exists>arr'. adaptiveHybridSort qsort arr n = Inr arr' \<and> sorted (take (nat n) arr')
    \<and> mset (take (nat n) arr') = mset (take (nat n) arr)
    \<and> drop (nat n) arr' = drop (nat n) arr"
proof (cases "n \<le> 1")
  case True
  then have "length (take (nat n) arr) \<le> 1" by simp
  then have "sorted (take (nat n) arr)" by (rule sorted_short)
  with True show ?thesis by (simp add: adaptiveHybridSort_def)
next
  case False
  then have n: "0 \<le> n" "0 \<le> (0::int)" "0 \<le> n - 1 + 1" "n - 1 < int (length arr)"
    using bound by simp_all
  show ?thesis
  proof (cases "n < INSERTION_SORT_THRESHOLD")
    case True
    from insertionSort_correct [OF n(2,3,4)]
    obtain mid where "insertionSort arr 0 (n - 1) =
        Inr (take (nat 0) arr @ mid @ drop (nat (n - 1 + 1)) arr)"
      and "sorted mid" and "mset mid = mset (slice arr 0 (n - 1))" by blast
    from full_range_result [OF n(1) bound this] False True show ?thesis
      by (simp add: adaptiveHybridSort_def)
  next
    case big: False
    with ana have st: "analyzeData qsort arr n = Inr strategy" by simp
    show ?thesis
    proof (cases strategy)
      case STRATEGY_MERGESORT
      from mergeSort_correct [OF n(2,3,4)]
      obtain mid where "mergeSort arr 0 (n - 1) =
          Inr (take (nat 0) arr @ mid @ drop (nat (n - 1 + 1)) arr)"
        and "sorted mid" and "mset mid = mset (slice arr 0 (n - 1))" by blast
      from full_range_result [OF n(1) bound this] False big st STRATEGY_MERGESORT
      show ?thesis by (simp add: adaptiveHybridSort_def)
    next
      case STRATEGY_QUICKSORT
      from quickSortRecursive_correct [OF n(2,3,4)]
      obtain mid where "quickSortRecursive arr 0 (n - 1) =
          Inr (take (nat 0) arr @ mid @ drop (nat (n - 1 + 1)) arr)"
        and "sorted mid" and "mset mid = mset (slice arr 0 (n - 1))" by blast
      from full_range_result [OF n(1) bound this] False big st STRATEGY_QUICKSORT
      show ?thesis by (simp add: adaptiveHybridSort_def quickSort_def)
    next
      case STRATEGY_RADIXSORT
      from big have "INSERTION_SORT_THRESHOLD \<le> n" by simp
      from safe [OF this STRATEGY_RADIXSORT]
      have vals: "\<forall>x \<in> set (take (nat n) arr). 0 \<le> x \<and> x < 1000000000" .
      from False have "1 \<le> n" by simp
      from radixSort_traced_result [OF this bound vals]
      obtain arr' passes where run: "radixSort_traced arr n = Inr (arr', passes)"
        and res: "take (nat n) arr' = stable_passes (take (nat n) arr) passes"
          "drop (nat n) arr' = drop (nat n) arr" "sorted (take (nat n) arr')"
        by blast
      from res(1) have "mset (take (nat n) arr') = mset (take (nat n) arr)"
        by (simp add: mset_stable_passes)
      with run res False big st STRATEGY_RADIXSORT show ?thesis
        by (simp add: adaptiveHybridSort_def radixSort_def)
    qed
  qed
qed

section \<open>Runs that end unsorted\<close>

text \<open>
  Claim C1. On \<open>descending_digits_then_negative\<close> with \<open>n = 32\<close> the analysis answers
  \<open>STRATEGY_RADIXSORT\<close>: fewer than 85 per cent of the pairs ascend and the sign test
  never looks at the last element. The maximum is 9, so \<open>radixSort\<close> makes one pass
  with \<open>exp = 1\<close>, in which \<open>(-10 / 1) % 10\<close> is 0. No access is out of bounds and
  nothing overflows; the call returns with \<open>-10\<close> after the zeros.
\<close>

theorem adaptiveHybridSort_returns_unsorted:
  "analyzeData libc_qsort descending_digits_then_negative 32 = Inr STRATEGY_RADIXSORT
   \<and> adaptiveHybridSort libc_qsort descending_digits_then_negative 32 =
       Inr [0, 0, 0, - 10, 1, 1, 1, 2, 2, 2, 3, 3, 3, 4, 4, 4, 5, 5, 5, 5,
            6, 6, 6, 7, 7, 7, 8, 8, 8, 9, 9, 9]
   \<and> \<not> sorted [0, 0, 0, - 10, 1, 1, 1, 2, 2, 2, 3, 3, 3, 4, 4, 4, 5, 5, 5, 5,
            6, 6, 6, 7, 7, 7, 8, 8, 8, 9, 9, 9 :: int]"
  unfolding descending_digits_then_negative_def
  by (simp add: run_simps cong: rbind_weak_cong)

text \<open>
  Claim C2. With \<open>-5\<close> in place of \<open>-10\<close> the same path is taken, and the first pass
  computes \<open>(-5 / 1) % 10 = -5\<close> as an index into \<open>count\<close>: the program accesses
  \<open>count[-5]\<close>, outside the array, and no permutation of the input is produced.
\<close>

theorem adaptiveHybridSort_indexes_count_out_of_bounds:
  "analyzeData libc_qsort (descending_digits_then_negative[31 := - 5]) 32 =
       Inr STRATEGY_RADIXSORT
   \<and> digit_at (descending_digits_then_negative[31 := - 5]) 31 1 = Inr (- 5)
   \<and> adaptiveHybridSort libc_qsort (descending_digits_then_negative[31 := - 5]) 32 =
       Inl OutOfBounds"
  unfolding descending_digits_then_negative_def
  by (simp add: run_simps cong: rbind_weak_cong)

text \<open>
  Claim C7. Sorting the unsorted result of the first run once more goes through the
  merge backend (30 of its 31 pairs ascend) and moves \<open>-10\<close> to the front: the second
  application changes the sequence.
\<close>

theorem adaptiveHybridSort_twice_differs:
  "adaptiveHybridSort libc_qsort descending_digits_then_negative 32 =
       Inr [0, 0, 0, - 10, 1, 1, 1, 2, 2, 2, 3, 3, 3, 4, 4, 4, 5, 5, 5, 5,
            6, 6, 6, 7, 7, 7, 8, 8, 8, 9, 9, 9]
   \<and> adaptiveHybridSort libc_qsort
        [0, 0, 0, - 10, 1, 1, 1, 2, 2, 2, 3, 3, 3, 4, 4, 4, 5, 5, 5, 5,
         6, 6, 6, 7, 7, 7, 8, 8, 8, 9, 9, 9] 32 =
       Inr [- 10, 0, 0, 0, 1, 1, 1, 2, 2, 2, 3, 3, 3, 4, 4, 4, 5, 5, 5, 5,
            6, 6, 6, 7, 7, 7, 8, 8, 8, 9, 9, 9]
   \<and> rbind (adaptiveHybridSort libc_qsort descending_digits_then_negative 32)
        (\<lambda>T. adaptiveHybridSort libc_qsort T 32)
       \<noteq> adaptiveHybridSort libc_qsort descending_digits_then_negative 32"
proof -
  have first: "adaptiveHybridSort libc_qsort descending_digits_then_negative 32 =
       Inr [0, 0, 0, - 10, 1, 1, 1, 2, 2, 2, 3, 3, 3, 4, 4, 4, 5, 5, 5, 5,
            6, 6, 6, 7, 7, 7, 8, 8, 8, 9, 9, 9]"
    unfolding descending_digits_then_negative_def
    by (simp add: run_simps cong: rbind_weak_cong)
  have second: "adaptiveHybridSort libc_qsort
        [0, 0, 0, - 10, 1, 1, 1, 2, 2, 2, 3, 3, 3, 4, 4, 4, 5, 5, 5, 5,
         6, 6, 6, 7, 7, 7, 8, 8, 8, 9, 9, 9] 32 =
       Inr [- 10, 0, 0, 0, 1, 1, 1, 2, 2, 2, 3, 3, 3, 4, 4, 4, 5, 5, 5, 5,
            6, 6, 6, 7, 7, 7, 8, 8, 8, 9, 9, 9]"
    by (simp add: run_simps cong: rbind_weak_cong)
  show ?thesis
    by (simp add: first second)
qed

end
